theory Spec2Isabelle
  imports Complex_Main "HOL-Library.Multiset"
begin

section \<open>Strings and character classes\<close>

text \<open>
  A JavaScript string is a sequence of UTF-16 code units. The regular expressions of
  \<^verbatim>\<open>ScreenReader.tsx\<close> carry no \<^verbatim>\<open>u\<close> flag, so they work on code units one at a time;
  a code unit is modelled by its number. A \<^verbatim>\<open>number\<close> field of a block is a real;
  the subtractions of the sort comparator are rounded to doubles (see \<open>to_double\<close>).
  NaN and the infinities are outside the model.
\<close>

type_synonym jschar = nat
type_synonym jsstring = "jschar list"

definition js :: "string \<Rightarrow> jsstring" where
  "js s = map of_char s"

text \<open>The class \<^verbatim>\<open>\s\<close>, which is also what \<^verbatim>\<open>String.prototype.trim\<close> removes.\<close>

definition is_space :: "jschar \<Rightarrow> bool" where
  "is_space c = (c = 9 \<or> c = 10 \<or> c = 11 \<or> c = 12 \<or> c = 13 \<or> c = 32 \<or> c = 160
     \<or> c = 5760 \<or> (8192 \<le> c \<and> c \<le> 8202) \<or> c = 8232 \<or> c = 8233 \<or> c = 8239
     \<or> c = 8287 \<or> c = 12288 \<or> c = 65279)"

definition is_upper :: "jschar \<Rightarrow> bool" where
  "is_upper c = (65 \<le> c \<and> c \<le> 90)"

definition is_lower :: "jschar \<Rightarrow> bool" where
  "is_lower c = (97 \<le> c \<and> c \<le> 122)"

definition is_alpha :: "jschar \<Rightarrow> bool" where
  "is_alpha c = (is_lower c \<or> is_upper c)"

definition is_digit :: "jschar \<Rightarrow> bool" where
  "is_digit c = (48 \<le> c \<and> c \<le> 57)"

text \<open>The class \<^verbatim>\<open>\w\<close>.\<close>

definition is_word :: "jschar \<Rightarrow> bool" where
  "is_word c = (is_alpha c \<or> is_digit c \<or> c = 95)"

text \<open>The class \<^verbatim>\<open>[,.!?;:]\<close>.\<close>

definition is_punct :: "jschar \<Rightarrow> bool" where
  "is_punct c = (c = 44 \<or> c = 46 \<or> c = 33 \<or> c = 63 \<or> c = 59 \<or> c = 58)"

text \<open>The class \<^verbatim>\<open>[.!?]\<close> of the sentence splitter's lookbehind.\<close>

definition is_terminator :: "jschar \<Rightarrow> bool" where
  "is_terminator c = (c = 46 \<or> c = 33 \<or> c = 63)"

text \<open>
  The complement of the class of line 224: letters, digits, white space and
  \<^verbatim>\<open>. , ! ? ; : ' " ( ) - $\<close> and the pound sign (163).
\<close>

definition is_allowed :: "jschar \<Rightarrow> bool" where
  "is_allowed c = (is_alpha c \<or> is_digit c \<or> is_space c \<or> c = 46 \<or> c = 44 \<or> c = 33
     \<or> c = 63 \<or> c = 59 \<or> c = 58 \<or> c = 39 \<or> c = 34 \<or> c = 40 \<or> c = 41 \<or> c = 45
     \<or> c = 36 \<or> c = 163)"

text \<open>The class \<^verbatim>\<open>[=\-@..]\<close> of line 221, with the registered and copyright marks.\<close>

definition is_decoration :: "jschar \<Rightarrow> bool" where
  "is_decoration c = (c = 61 \<or> c = 45 \<or> c = 64 \<or> c = 174 \<or> c = 169)"

definition to_upper :: "jschar \<Rightarrow> jschar" where
  "to_upper c = (if is_lower c then c - 32 else c)"

definition trim :: "jsstring \<Rightarrow> jsstring" where
  "trim s = rev (dropWhile is_space (rev (dropWhile is_space s)))"

text \<open>\<^verbatim>\<open>Array.prototype.join\<close>.\<close>

fun join :: "jsstring \<Rightarrow> jsstring list \<Rightarrow> jsstring" where
  "join sep [] = []"
| "join sep [x] = x"
| "join sep (x # y # ys) = x @ sep @ join sep (y # ys)"

section \<open>Recognised words\<close>

record BBox =
  x0 :: real
  y0 :: real
  x1 :: real
  y1 :: real

record TextBlock =
  text' :: jsstring
  confidence :: real
  bbox :: BBox

subsection \<open>The word filter (lines 298 to 312)\<close>

text \<open>\<^verbatim>\<open>/^[A-Z\s]{1,5}$/\<close>\<close>

definition short_caps :: "jsstring \<Rightarrow> bool" where
  "short_caps t = (1 \<le> length t \<and> length t \<le> 5 \<and> list_all (\<lambda>c. is_upper c \<or> is_space c) t)"

text \<open>\<^verbatim>\<open>/^[^a-zA-Z]*$/\<close>\<close>

definition no_letters :: "jsstring \<Rightarrow> bool" where
  "no_letters t = list_all (\<lambda>c. \<not> is_alpha c) t"

definition nav_labels :: "jsstring list" where
  "nav_labels = map js [''Home'', ''News'', ''Sport'', ''Business'', ''Innovation'',
     ''Culture'', ''Arts'', ''Travel'', ''Earth'', ''Audio'', ''Video'', ''Live'']"

text \<open>
  \<^verbatim>\<open>/^(Home|News|...|Live)$/i\<close>: without the \<^verbatim>\<open>u\<close> flag the comparison
  canonicalises both sides with the upper-case mapping, which sends no character
  outside ASCII to an ASCII letter.
\<close>

definition is_nav_label :: "jsstring \<Rightarrow> bool" where
  "is_nav_label t = (map to_upper t \<in> set (map (map to_upper) nav_labels))"

definition keep_block :: "TextBlock \<Rightarrow> bool" where
  "keep_block block =
     (let t = trim (text' block) in
      if length t < 3 then False
      else if short_caps t then False
      else if confidence block < 0.6 then False
      else if no_letters t then False
      else if is_nav_label t then False
      else True)"

subsection \<open>The spatial sorter (lines 313 to 318)\<close>

text \<open>
  The \<^verbatim>\<open>-\<close> of two numbers is their difference rounded to the nearest double
  (binary64, ties to even). \<open>binade x\<close> is the exponent of the power of two at or
  below \<open>\<bar>x\<bar>\<close>, and at least \<open>-1022\<close>, where the subnormal doubles begin; the doubles
  of that binade are the multiples of \<open>2 powi (binade x - 52)\<close>. Overflow is outside the
  model.
\<close>

definition binade :: "real \<Rightarrow> int" where
  "binade x = max \<lfloor>log 2 \<bar>x\<bar>\<rfloor> (- 1022)"

definition round_half_even :: "real \<Rightarrow> int" where
  "round_half_even x =
     (let f = \<lfloor>x\<rfloor>; d = x - of_int f in
      if d < 1 / 2 then f else if 1 / 2 < d then f + 1 else if even f then f else f + 1)"

definition to_double :: "real \<Rightarrow> real" where
  "to_double x =
     (if x = 0 then 0
      else of_int (round_half_even (x / 2 powi (binade x - 52))) * 2 powi (binade x - 52))"

definition compareBlocks :: "TextBlock \<Rightarrow> TextBlock \<Rightarrow> real" where
  "compareBlocks a b =
     (if \<bar>to_double (y0 (bbox a) - y0 (bbox b))\<bar> < 10
      then to_double (x0 (bbox a) - x0 (bbox b))
      else to_double (y0 (bbox a) - y0 (bbox b)))"

text \<open>
  \<^verbatim>\<open>Array.prototype.sort\<close> is the engine's: a stable sort by insertion, the way engines
  sort short arrays. The sorted prefix is kept in reverse; the next element moves left
  past every element the comparator puts strictly after it.
\<close>

fun sort_insert :: "('a \<Rightarrow> 'a \<Rightarrow> real) \<Rightarrow> 'a \<Rightarrow> 'a list \<Rightarrow> 'a list" where
  "sort_insert cmp x [] = [x]"
| "sort_insert cmp x (y # ys) =
     (if cmp y x > 0 then y # sort_insert cmp x ys else x # y # ys)"

definition array_sort :: "('a \<Rightarrow> 'a \<Rightarrow> real) \<Rightarrow> 'a list \<Rightarrow> 'a list" where
  "array_sort cmp xs = rev (foldl (\<lambda>acc x. sort_insert cmp x acc) [] xs)"

definition wordFilter :: "TextBlock list \<Rightarrow> TextBlock list" where
  "wordFilter blocks = filter keep_block blocks"

definition spatialSort :: "TextBlock list \<Rightarrow> TextBlock list" where
  "spatialSort blocks = array_sort compareBlocks blocks"

definition processedBlocks :: "TextBlock list \<Rightarrow> TextBlock list" where
  "processedBlocks blocks = spatialSort (wordFilter blocks)"

section \<open>Regular-expression replacement\<close>

text \<open>
  A pattern is a matcher: applied to the rest of the input at a position, it gives the
  length of the match that starts there and the text that replaces it. None of the
  global patterns below matches the empty string, and none looks behind, so
  \<^verbatim>\<open>replace\<close> with the \<^verbatim>\<open>g\<close> flag scans from the left, replaces a match and
  resumes after it. The counter of \<open>replace_from\<close> is the number of code units of the
  current match still to be skipped.
\<close>

type_synonym matcher = "jsstring \<Rightarrow> (nat \<times> jsstring) option"

fun replace_from :: "matcher \<Rightarrow> nat \<Rightarrow> jsstring \<Rightarrow> jsstring" where
  "replace_from m k [] = []"
| "replace_from m (Suc k) (c # cs) = replace_from m k cs"
| "replace_from m 0 (c # cs) =
     (case m (c # cs) of
        None \<Rightarrow> c # replace_from m 0 cs
      | Some (len, rep) \<Rightarrow> rep @ replace_from m (len - 1) cs)"

definition replaceAll :: "matcher \<Rightarrow> jsstring \<Rightarrow> jsstring" where
  "replaceAll m s = replace_from m 0 s"

text \<open>A literal pattern.\<close>

definition match_literal :: "jsstring \<Rightarrow> jsstring \<Rightarrow> matcher" where
  "match_literal pat rep s =
     (if pat \<noteq> [] \<and> take (length pat) s = pat then Some (length pat, rep) else None)"

text \<open>
  Words separated by \<^verbatim>\<open>\s+\<close>: the length of the match, if any. The greedy
  \<^verbatim>\<open>\s+\<close> never has to give a character back, as the next word starts with a letter.
\<close>

fun match_spaced :: "jsstring list \<Rightarrow> jsstring \<Rightarrow> nat option" where
  "match_spaced [] s = Some 0"
| "match_spaced [w] s = (if take (length w) s = w then Some (length w) else None)"
| "match_spaced (w # ws) s =
     (if take (length w) s = w then
        (let r = drop (length w) s; n = length (takeWhile is_space r) in
         if n = 0 then None
         else (case match_spaced ws (drop n r) of
                 None \<Rightarrow> None
               | Some k \<Rightarrow> Some (length w + n + k)))
      else None)"

text \<open>One code unit of a class.\<close>

definition match_class :: "(jschar \<Rightarrow> bool) \<Rightarrow> jsstring \<Rightarrow> matcher" where
  "match_class P rep s = (case s of [] \<Rightarrow> None | c # _ \<Rightarrow> if P c then Some (1, rep) else None)"

text \<open>\<^verbatim>\<open>\s*X\s*\<close> for one code unit \<open>X\<close> that is not white space.\<close>

definition match_around :: "jschar \<Rightarrow> jsstring \<Rightarrow> matcher" where
  "match_around x rep s =
     (let n = length (takeWhile is_space s) in
      case drop n s of
        [] \<Rightarrow> None
      | c # r \<Rightarrow> if c = x then Some (n + 1 + length (takeWhile is_space r), rep) else None)"

text \<open>\<^verbatim>\<open>\s+\<close>, replaced by one space.\<close>

definition match_spaces :: matcher where
  "match_spaces s =
     (let n = length (takeWhile is_space s) in if n = 0 then None else Some (n, [32]))"

text \<open>\<^verbatim>\<open>([a-zA-Z])'([a-zA-Z])\<close>, replaced by \<^verbatim>\<open>$1'$2\<close>.\<close>

definition match_contraction :: matcher where
  "match_contraction s =
     (case s of
        a # q # b # _ \<Rightarrow> if is_alpha a \<and> q = 39 \<and> is_alpha b then Some (3, [a, 39, b]) else None
      | _ \<Rightarrow> None)"

text \<open>\<^verbatim>\<open>(\w+)([,.!?;:])\<close>, replaced by \<^verbatim>\<open>$1$2\<close>.\<close>

definition match_word_punct :: matcher where
  "match_word_punct s =
     (let w = takeWhile is_word s in
      case drop (length w) s of
        [] \<Rightarrow> None
      | p # _ \<Rightarrow> if w \<noteq> [] \<and> is_punct p then Some (length w + 1, w @ [p]) else None)"

text \<open>\<^verbatim>\<open>\s+([,.!?;:])\<close>, replaced by \<^verbatim>\<open>$1\<close>.\<close>

definition match_space_punct :: matcher where
  "match_space_punct s =
     (let n = length (takeWhile is_space s) in
      case drop n s of
        [] \<Rightarrow> None
      | p # _ \<Rightarrow> if 0 < n \<and> is_punct p then Some (n + 1, [p]) else None)"

text \<open>\<^verbatim>\<open>([,.!?;:])\s*\<close>, replaced by \<^verbatim>\<open>$1\<close> and one space.\<close>

definition match_punct_space :: matcher where
  "match_punct_space s =
     (case s of
        [] \<Rightarrow> None
      | p # r \<Rightarrow> if is_punct p then Some (1 + length (takeWhile is_space r), [p, 32]) else None)"

section \<open>The local clean-up (\<^verbatim>\<open>cleanTextLocally\<close>, lines 218 to 294)\<close>

subsection \<open>Normalisation (lines 220 to 231)\<close>

definition nav_menu_literal :: jsstring where
  "nav_menu_literal = js (''Watch Live Sign In Home News Sport Business Innovation ''
     @ ''Culture Arts Travel Earth Audio Video Live'')"

definition match_nav_menu :: matcher where
  "match_nav_menu s = (case match_spaced nav_labels s of None \<Rightarrow> None | Some n \<Rightarrow> Some (n, []))"

definition normalizeText :: "jsstring \<Rightarrow> jsstring" where
  "normalizeText text =
     (let c1 = dropWhile is_decoration text;
          c2 = replaceAll (match_literal nav_menu_literal []) c1;
          c3 = replaceAll match_nav_menu c2;
          c4 = replaceAll (match_class (\<lambda>c. \<not> is_allowed c) [32]) c3;
          c5 = replaceAll (match_around 91 [32]) c4;
          c6 = replaceAll (match_around 93 [32]) c5;
          c7 = replaceAll (match_around 40 [40]) c6;
          c8 = replaceAll (match_around 41 [41, 32]) c7;
          c9 = replaceAll (match_class (\<lambda>c. c = 34 \<or> c = 124) [34]) c8;
          c10 = replaceAll (match_class (\<lambda>c. c = 39) [39]) c9
      in trim c10)"

subsection \<open>Sentences (lines 234 to 255)\<close>

text \<open>
  \<^verbatim>\<open>split(/(?<=[.!?])\s+/)\<close>: a separator is a run of white space that follows a
  terminator. \<open>cur\<close> is the piece read so far, \<open>insep\<close> says that a separator is being
  consumed. A piece is never empty when a separator starts, so the code unit before the
  position is the last one of \<open>cur\<close>.
\<close>

fun split_from :: "jsstring \<Rightarrow> bool \<Rightarrow> jsstring \<Rightarrow> jsstring list" where
  "split_from cur insep [] = [cur]"
| "split_from cur insep (c # cs) =
     (if insep \<and> is_space c then split_from cur True cs
      else if cur \<noteq> [] \<and> is_terminator (last cur) \<and> is_space c then cur # split_from [] True cs
      else split_from (cur @ [c]) False cs)"

definition splitSentences :: "jsstring \<Rightarrow> jsstring list" where
  "splitSentences cleaned = split_from [] False cleaned"

definition keep_sentence :: "jsstring \<Rightarrow> bool" where
  "keep_sentence sentence =
     (if length sentence < 5 then False
      else if short_caps sentence then False
      else if no_letters sentence then False
      else True)"

text \<open>\<^verbatim>\<open>replace(/^[a-z]/, m => m.toUpperCase())\<close>\<close>

definition capitalize :: "jsstring \<Rightarrow> jsstring" where
  "capitalize s = (case s of [] \<Rightarrow> [] | c # cs \<Rightarrow> if is_lower c then to_upper c # cs else s)"

definition cleanSentence :: "jsstring \<Rightarrow> jsstring" where
  "cleanSentence sentence =
     (let s1 = capitalize sentence;
          s2 = replaceAll match_spaces s1;
          s3 = replaceAll match_contraction s2;
          s4 = replaceAll match_word_punct s3;
          s5 = replaceAll match_space_punct s4;
          s6 = replaceAll match_punct_space s5
      in trim s6)"

definition processedSentences :: "jsstring \<Rightarrow> jsstring list" where
  "processedSentences cleaned =
     map cleanSentence (filter keep_sentence (map trim (splitSentences cleaned)))"

subsection \<open>Paragraphs (lines 258 to 293)\<close>

record composer =
  paragraphs :: "jsstring list"
  currentParagraph :: "jsstring list"

text \<open>\<^verbatim>\<open>/^["']/\<close>\<close>

definition starts_with_quote :: "jsstring \<Rightarrow> bool" where
  "starts_with_quote s = (case s of [] \<Rightarrow> False | c # _ \<Rightarrow> c = 34 \<or> c = 39)"

text \<open>\<^verbatim>\<open>/[:]\s*$/\<close>\<close>

definition ends_with_colon :: "jsstring \<Rightarrow> bool" where
  "ends_with_colon s = (case dropWhile is_space (rev s) of [] \<Rightarrow> False | c # _ \<Rightarrow> c = 58)"

definition shouldStartNewParagraph :: "jsstring list \<Rightarrow> jsstring \<Rightarrow> bool" where
  "shouldStartNewParagraph cur sentence =
     (3 \<le> length cur \<or> starts_with_quote sentence \<or> length sentence < 30
      \<or> ends_with_colon sentence)"

text \<open>One call of the \<^verbatim>\<open>forEach\<close> callback; \<open>n\<close> is \<^verbatim>\<open>processedSentences.length\<close>.\<close>

definition compose_step :: "nat \<Rightarrow> composer \<Rightarrow> nat \<times> jsstring \<Rightarrow> composer" where
  "compose_step n st p =
     (let index = fst p; sentence = snd p in
      if trim sentence = [] then st
      else
        let st1 = (if shouldStartNewParagraph (currentParagraph st) sentence
                      \<and> 0 < length (currentParagraph st)
                   then \<lparr>paragraphs = paragraphs st @ [join [32] (currentParagraph st)],
                         currentParagraph = []\<rparr>
                   else st);
            st2 = st1\<lparr>currentParagraph := currentParagraph st1 @ [sentence]\<rparr>
        in if int index = int n - 1 \<and> 0 < length (currentParagraph st2)
           then st2\<lparr>paragraphs := paragraphs st2 @ [join [32] (currentParagraph st2)]\<rparr>
           else st2)"

definition composeParagraphs :: "jsstring list \<Rightarrow> jsstring list" where
  "composeParagraphs sentences =
     paragraphs (foldl (compose_step (length sentences))
       \<lparr>paragraphs = [], currentParagraph = []\<rparr> (enumerate 0 sentences))"

definition finalParagraphs :: "jsstring list \<Rightarrow> jsstring list" where
  "finalParagraphs ps = map trim (filter (\<lambda>p. 0 < length (trim p)) ps)"

definition documentParagraphs :: "jsstring \<Rightarrow> jsstring list" where
  "documentParagraphs text =
     finalParagraphs (composeParagraphs (processedSentences (normalizeText text)))"

definition cleanTextLocally :: "jsstring \<Rightarrow> jsstring" where
  "cleanTextLocally text = join [10, 10] (documentParagraphs text)"

section \<open>The orchestrator\<close>

record ui_state =
  blocks :: "TextBlock list"
  cleanedText :: jsstring
  isLoading :: bool
  initError :: "jsstring option"

definition combinedText :: "TextBlock list \<Rightarrow> jsstring" where
  "combinedText bs = trim (replaceAll match_spaces (join [32] (map text' bs)))"

text \<open>
  \<^verbatim>\<open>filterAndFormatBlocks\<close> (lines 296 to 333): the blocks it returns and the state
  after its call of \<^verbatim>\<open>setCleanedText\<close>, which is guarded by \<^verbatim>\<open>if (combinedText)\<close>.
\<close>

definition filterAndFormatBlocks :: "TextBlock list \<Rightarrow> ui_state \<Rightarrow> TextBlock list \<times> ui_state" where
  "filterAndFormatBlocks bs st =
     (let pb = processedBlocks bs; ct = combinedText pb in
      if ct \<noteq> [] then (pb, st\<lparr>cleanedText := cleanTextLocally ct\<rparr>) else (pb, st))"

text \<open>
  What the awaited collaborators of \<^verbatim>\<open>analyzeFrame\<close> (lines 335 to 396) can deliver:
  no worker, a blank frame, a recognition that throws, or a result with its text and the
  words of its lines (confidence on the scale 0 to 100).
\<close>

datatype recognition =
  WorkerMissing
| FrameEmpty
| RecognizeThrows jsstring
| Recognized jsstring "TextBlock list list"

definition collectBlocks :: "TextBlock list list \<Rightarrow> TextBlock list" where
  "collectBlocks lines =
     concat (map (\<lambda>ws. map (\<lambda>w. w\<lparr>confidence := confidence w / 100\<rparr>)
                          (filter (\<lambda>w. trim (text' w) \<noteq> []) ws)) lines)"

definition analyzeFrame :: "bool \<Rightarrow> recognition \<Rightarrow> ui_state \<Rightarrow> ui_state" where
  "analyzeFrame mounted r st =
     (case r of
        WorkerMissing \<Rightarrow> st\<lparr>initError := Some (js ''Worker not initialized'')\<rparr>
      | FrameEmpty \<Rightarrow> st
      | RecognizeThrows msg \<Rightarrow> st\<lparr>initError := Some msg\<rparr>
      | Recognized dtext lines \<Rightarrow>
          if dtext \<noteq> [] \<and> mounted then
            (let bs = collectBlocks lines in
             if 0 < length bs \<and> mounted then
               (let res = filterAndFormatBlocks bs st in (snd res)\<lparr>blocks := fst res\<rparr>)
             else st)
          else st)"

text \<open>What the page shows under "Detected Text" (lines 555 to 580).\<close>

datatype display = NoTextDetected | Shown jsstring

definition displayed :: "ui_state \<Rightarrow> display" where
  "displayed st = (if cleanedText st \<noteq> [] then Shown (cleanedText st) else NoTextDetected)"

subsection \<open>The remote clean-up (\<^verbatim>\<open>cleanTextWithAI\<close>, lines 193 to 216)\<close>

text \<open>
  The awaited \<^verbatim>\<open>textGeneration\<close> call either rejects with an error or resolves to a
  response: \<open>None\<close> for a missing response, \<open>Some None\<close> for one without
  \<^verbatim>\<open>generated_text\<close>.
\<close>

datatype generation = Rejected jsstring | Resolved "jsstring option option"

text \<open>The body of the \<^verbatim>\<open>try\<close> block: \<open>Inl\<close> is a thrown error.\<close>

definition ai_try :: "generation \<Rightarrow> jsstring \<Rightarrow> jsstring + jsstring" where
  "ai_try g text =
     (case g of
        Rejected e \<Rightarrow> Inl e
      | Resolved response \<Rightarrow>
          (case response of
             Some (Some generated_text) \<Rightarrow>
               if generated_text \<noteq> [] then Inr (trim generated_text) else Inr text
           | _ \<Rightarrow> Inr text))"

definition cleanTextWithAI :: "generation \<Rightarrow> jsstring \<Rightarrow> ui_state \<Rightarrow> (jsstring + jsstring) \<times> ui_state" where
  "cleanTextWithAI g text st =
     (let st1 = st\<lparr>isLoading := True\<rparr>;
          caught = (case ai_try g text of Inl e \<Rightarrow> Inr text | Inr v \<Rightarrow> Inr v)
      in (caught, st1\<lparr>isLoading := False\<rparr>))"

section \<open>Notions of the specification\<close>

subsection \<open>Reading order\<close>

text \<open>Two words are on the same line when their top edges differ by less than 10.\<close>

definition same_line :: "TextBlock \<Rightarrow> TextBlock \<Rightarrow> bool" where
  "same_line a b = (\<bar>y0 (bbox a) - y0 (bbox b)\<bar> < 10)"

definition reading_order :: "TextBlock \<Rightarrow> TextBlock \<Rightarrow> bool" where
  "reading_order a b =
     (if 10 \<le> \<bar>y0 (bbox a) - y0 (bbox b)\<bar> then y0 (bbox a) < y0 (bbox b)
      else x0 (bbox a) \<le> x0 (bbox b))"

text \<open>
  A whole number of pixels between 0 and \<open>2 ^ 53\<close>: such numbers are doubles, and so is
  the difference of two of them, so that the comparator subtracts them without rounding.
\<close>

definition whole_pixel :: "real \<Rightarrow> bool" where
  "whole_pixel v = (of_int \<lfloor>v\<rfloor> = v \<and> 0 \<le> v \<and> v \<le> 2 ^ 53)"

definition whole_block :: "TextBlock \<Rightarrow> bool" where
  "whole_block w = (whole_pixel (x0 (bbox w)) \<and> whole_pixel (y0 (bbox w)))"

definition whole_pixels :: "TextBlock list \<Rightarrow> bool" where
  "whole_pixels ws = list_all whole_block ws"

definition lines_separated :: "TextBlock list \<Rightarrow> bool" where
  "lines_separated ws =
     (\<forall>a\<in>set ws. \<forall>b\<in>set ws. \<forall>c\<in>set ws. same_line a b \<and> same_line b c \<longrightarrow> same_line a c)"

text \<open>
  A comparator is consistent on a set when "not after" is transitive there and no two
  elements are each strictly after the other.
\<close>

definition cmp_consistent :: "('a \<Rightarrow> 'a \<Rightarrow> real) \<Rightarrow> 'a set \<Rightarrow> bool" where
  "cmp_consistent cmp S =
     ((\<forall>a\<in>S. \<forall>b\<in>S. \<forall>c\<in>S. cmp a b \<le> 0 \<longrightarrow> cmp b c \<le> 0 \<longrightarrow> cmp a c \<le> 0)
      \<and> (\<forall>a\<in>S. \<forall>b\<in>S. cmp a b > 0 \<longrightarrow> cmp b a \<le> 0))"

subsection \<open>Paragraph composition as the specification words it\<close>

text \<open>
  A running accumulator: before a sentence is appended, a non-empty accumulator is closed
  when it holds 3 sentences or more, or the sentence begins with a quotation mark, is
  shorter than 30, or ends with a colon; at the end a non-empty accumulator is closed.
\<close>

fun compose_spec :: "jsstring list \<Rightarrow> jsstring list \<Rightarrow> jsstring list" where
  "compose_spec acc [] = (if acc \<noteq> [] then [join [32] acc] else [])"
| "compose_spec acc (s # ss) =
     (if acc \<noteq> [] \<and> (3 \<le> length acc \<or> starts_with_quote s \<or> length s < 30 \<or> ends_with_colon s)
      then join [32] acc # compose_spec [s] ss
      else compose_spec (acc @ [s]) ss)"

text \<open>A paragraph that is the joined text of one to three of the given sentences.\<close>

definition short_group :: "jsstring list \<Rightarrow> jsstring \<Rightarrow> bool" where
  "short_group ss p = (\<exists>g. g \<noteq> [] \<and> length g \<le> 3 \<and> set g \<subseteq> set ss \<and> p = join [32] g)"

definition composer_inv :: "jsstring list \<Rightarrow> composer \<Rightarrow> bool" where
  "composer_inv ss st = (length (currentParagraph st) \<le> 3 \<and> set (currentParagraph st) \<subseteq> set ss
     \<and> (\<forall>p\<in>set (paragraphs st). short_group ss p))"

text \<open>A code unit that is no white space other than the plain space.\<close>

definition plain_char :: "jschar \<Rightarrow> bool" where
  "plain_char c = (\<not> is_space c \<or> c = 32)"

subsection \<open>Shapes of a cleaned sentence\<close>

text \<open>
  Where a string starts and ends, strings whose white space is single plain spaces
  (\<open>single_spaced\<close>), and such strings with no space before a punctuation mark
  (\<open>tidy\<close>); short names for the three scans of the sentence clean-up.
\<close>

definition starts_nonspace :: "jsstring \<Rightarrow> bool" where
  "starts_nonspace s = (case s of [] \<Rightarrow> True | c # _ \<Rightarrow> \<not> is_space c)"

definition ends_nonspace :: "jsstring \<Rightarrow> bool" where
  "ends_nonspace s = (s = [] \<or> \<not> is_space (last s))"

fun single_spaced :: "jsstring \<Rightarrow> bool" where
  "single_spaced [] = True"
| "single_spaced [c] = plain_char c"
| "single_spaced (c # d # cs) =
     (plain_char c \<and> \<not> (is_space c \<and> is_space d) \<and> single_spaced (d # cs))"

fun tidy :: "jsstring \<Rightarrow> bool" where
  "tidy [] = True"
| "tidy [c] = plain_char c"
| "tidy (c # d # cs) =
     (plain_char c \<and> \<not> (is_space c \<and> (is_space d \<or> is_punct d)) \<and> tidy (d # cs))"

definition starts_word :: "jsstring \<Rightarrow> bool" where
  "starts_word s = (case s of [] \<Rightarrow> True | c # _ \<Rightarrow> \<not> is_space c \<and> \<not> is_punct c)"

definition starts_firm :: "jsstring \<Rightarrow> bool" where
  "starts_firm s = (case s of [] \<Rightarrow> True | c # _ \<Rightarrow> \<not> is_space c \<and> \<not> is_lower c)"

abbreviation collapse :: "jsstring \<Rightarrow> jsstring" where
  "collapse \<equiv> replaceAll match_spaces"

abbreviation unspace :: "jsstring \<Rightarrow> jsstring" where
  "unspace \<equiv> replaceAll match_space_punct"

abbreviation respace :: "jsstring \<Rightarrow> jsstring" where
  "respace \<equiv> replaceAll match_punct_space"

subsection \<open>Sample inputs\<close>

definition word_at :: "real \<Rightarrow> real \<Rightarrow> TextBlock" where
  "word_at x y = \<lparr>text' = js ''word'', confidence = 0.9, bbox = \<lparr>x0 = x, y0 = y, x1 = x + 40, y1 = y + 12\<rparr>\<rparr>"

text \<open>A double far below one pixel.\<close>

definition tiny :: real where
  "tiny = 1 / 2 ^ 60"

definition low_word :: TextBlock where
  "low_word = \<lparr>text' = js ''Reliable'', confidence = 0.55,
     bbox = \<lparr>x0 = 0, y0 = 0, x1 = 60, y1 = 12\<rparr>\<rparr>"

definition good_word :: TextBlock where
  "good_word = \<lparr>text' = js ''quick'', confidence = 0.92,
     bbox = \<lparr>x0 = 70, y0 = 0, x1 = 110, y1 = 12\<rparr>\<rparr>"

definition long_sentence :: jsstring where
  "long_sentence = js ''This sentence is long enough to stay.''"

text \<open>The normalised text of the second scenario of the specification.\<close>

definition scenario_text :: jsstring where
  "scenario_text = js ''hello world this is great. and it works well. ok.''"

text \<open>A sentence with a typographic apostrophe (code unit 8217).\<close>

definition curly_text :: jsstring where
  "curly_text = [73, 116, 8217, 115] @ js '' a fine day today.''"

definition pi_text :: jsstring where
  "pi_text = js ''3.14 is the value of pi.''"

text \<open>A state that shows the text of an earlier run.\<close>

definition old_state :: ui_state where
  "old_state = \<lparr>blocks = [], cleanedText = js ''The quick fox.'', isLoading = False,
     initError = None\<rparr>"

text \<open>A word as the engine reports it, confidence on the scale 0 to 100.\<close>

definition news_word :: TextBlock where
  "news_word = \<lparr>text' = js ''NEWS'', confidence = 95,
     bbox = \<lparr>x0 = 0, y0 = 0, x1 = 40, y1 = 12\<rparr>\<rparr>"

subsection \<open>The remote clean-up\<close>

text \<open>The call fails or its response carries no generated text.\<close>

definition no_generated_text :: "generation \<Rightarrow> bool" where
  "no_generated_text g =
     (case g of
        Rejected e \<Rightarrow> True
      | Resolved response \<Rightarrow>
          (case response of
             None \<Rightarrow> True
           | Some None \<Rightarrow> True
           | Some (Some generated_text) \<Rightarrow> generated_text = []))"

section \<open>Evaluation helpers\<close>

lemmas char_defs = is_space_def is_upper_def is_lower_def is_alpha_def is_digit_def is_word_def
  is_punct_def is_terminator_def is_allowed_def is_decoration_def to_upper_def

lemmas matcher_defs = match_literal_def match_class_def match_around_def match_spaces_def
  match_contraction_def match_word_punct_def match_space_punct_def match_punct_space_def
  match_nav_menu_def

section \<open>The word filter\<close>

lemma keep_block_confidence: "keep_block w \<Longrightarrow> \<not> confidence w < 0.6"
  by (auto simp: keep_block_def Let_def split: if_splits)

subsection \<open>The sort returns a permutation\<close>

lemma mset_sort_insert: "mset (sort_insert cmp x ys) = add_mset x (mset ys)"
  by (induction ys) auto

lemma mset_sort_fold: "mset (foldl (\<lambda>acc x. sort_insert cmp x acc) acc xs) = mset xs + mset acc"
  by (induction xs arbitrary: acc) (auto simp: mset_sort_insert)

lemma mset_array_sort: "mset (array_sort cmp xs) = mset xs"
  by (simp add: array_sort_def mset_sort_fold)

lemma set_array_sort: "set (array_sort cmp xs) = set xs"
  using mset_array_sort [of cmp xs] by (metis set_mset_mset)

lemma set_sort_insert: "set (sort_insert cmp x ys) = insert x (set ys)"
  using mset_sort_insert [of cmp x ys] by (metis set_mset_add_mset_insert set_mset_mset)

text \<open>
  Claim C1: for every input list of recognised words, no word whose normalised
  confidence is below 0.6 appears in the output of the word filter (nor among the
  blocks \<^verbatim>\<open>filterAndFormatBlocks\<close> returns, which are the filtered words sorted); in
  particular a word with confidence 0.55 is excluded whatever its text, bounding box or
  position in the list.
\<close>

theorem word_filter_confidence:
  "(\<forall>w. confidence w < 0.6 \<longrightarrow> w \<notin> set (wordFilter ws) \<and> w \<notin> set (processedBlocks ws))
   \<and> (\<forall>w. confidence w = 0.55 \<longrightarrow> w \<notin> set (wordFilter ws))"
  by (auto simp: wordFilter_def processedBlocks_def spatialSort_def set_array_sort
      dest: keep_block_confidence)

theorem word_filter_confidence_witness:
  "confidence low_word = 0.55 \<and> low_word \<notin> set (wordFilter [low_word, good_word])
   \<and> wordFilter [low_word, good_word] = [good_word]"
proof -
  have c: "confidence low_word = 0.55" by (simp add: low_word_def)
  have "low_word \<notin> set (wordFilter [low_word, good_word])"
    using word_filter_confidence [of "[low_word, good_word]"] c by blast
  moreover have "keep_block good_word"
    by (simp add: keep_block_def good_word_def js_def trim_def short_caps_def no_letters_def
        is_nav_label_def nav_labels_def char_defs)
  moreover have "\<not> keep_block low_word"
    by (simp add: keep_block_def low_word_def)
  ultimately show ?thesis using c by (simp add: wordFilter_def)
qed

section \<open>The spatial sorter\<close>

subsection \<open>Sorted output for a consistent comparator\<close>

lemma sorted_sort_insert:
  assumes cc: "cmp_consistent cmp S" and x: "x \<in> S"
  shows "set ys \<subseteq> S \<Longrightarrow> sorted_wrt (\<lambda>u v. cmp v u \<le> 0) ys
    \<Longrightarrow> sorted_wrt (\<lambda>u v. cmp v u \<le> 0) (sort_insert cmp x ys)"
proof (induction ys)
  case Nil
  then show ?case by simp
next
  case (Cons y ys)
  have yS: "y \<in> S" and ysS: "set ys \<subseteq> S" using Cons.prems(1) by simp_all
  have below: "\<forall>z\<in>set ys. cmp z y \<le> 0" and srt: "sorted_wrt (\<lambda>u v. cmp v u \<le> 0) ys"
    using Cons.prems(2) by simp_all
  show ?case
  proof (cases "cmp y x > 0")
    case True
    have ih: "sorted_wrt (\<lambda>u v. cmp v u \<le> 0) (sort_insert cmp x ys)"
      using Cons.IH [OF ysS srt] .
    have "cmp x y \<le> 0" using cc True yS x unfolding cmp_consistent_def by blast
    then have "\<forall>z\<in>set (sort_insert cmp x ys). cmp z y \<le> 0"
      using below by (simp add: set_sort_insert)
    then show ?thesis using True ih by simp
  next
    case False
    then have yx: "cmp y x \<le> 0" by simp
    have "\<forall>z\<in>set ys. cmp z x \<le> 0"
    proof
      fix z assume z: "z \<in> set ys"
      then have zS: "z \<in> S" using ysS by blast
      have zy: "cmp z y \<le> 0" using below z by blast
      show "cmp z x \<le> 0" using cc zS yS x zy yx unfolding cmp_consistent_def by blast
    qed
    then show ?thesis using False yx below srt by simp
  qed
qed

lemma sorted_sort_fold:
  assumes cc: "cmp_consistent cmp S"
  shows "set xs \<subseteq> S \<Longrightarrow> set acc \<subseteq> S \<Longrightarrow> sorted_wrt (\<lambda>u v. cmp v u \<le> 0) acc
    \<Longrightarrow> sorted_wrt (\<lambda>u v. cmp v u \<le> 0) (foldl (\<lambda>acc x. sort_insert cmp x acc) acc xs)"
proof (induction xs arbitrary: acc)
  case Nil
  then show ?case by simp
next
  case (Cons x xs)
  have xS: "x \<in> S" and xsS: "set xs \<subseteq> S" using Cons.prems(1) by simp_all
  have 1: "sorted_wrt (\<lambda>u v. cmp v u \<le> 0) (sort_insert cmp x acc)"
    using sorted_sort_insert [OF cc xS Cons.prems(2) Cons.prems(3)] .
  have 2: "set (sort_insert cmp x acc) \<subseteq> S"
    using Cons.prems(2) xS by (simp add: set_sort_insert)
  show ?case using Cons.IH [OF xsS 2 1] by simp
qed

lemma sorted_array_sort:
  assumes cc: "cmp_consistent cmp (set xs)"
  shows "sorted_wrt (\<lambda>u v. cmp u v \<le> 0) (array_sort cmp xs)"
proof -
  have "sorted_wrt (\<lambda>u v. cmp v u \<le> 0) (foldl (\<lambda>acc x. sort_insert cmp x acc) [] xs)"
    using sorted_sort_fold [OF cc, of xs "[]"] by simp
  then show ?thesis by (simp add: array_sort_def sorted_wrt_rev)
qed

lemma filter_sort_insert:
  assumes "\<And>y. cmp y x > 0 \<Longrightarrow> \<not> (P y \<and> P x)"
  shows "filter P (sort_insert cmp x ys) = (if P x then x # filter P ys else filter P ys)"
  using assms by (induction ys) auto

lemma filter_sort_fold:
  assumes "\<And>x y. cmp y x > 0 \<Longrightarrow> \<not> (P y \<and> P x)"
  shows "filter P (foldl (\<lambda>acc x. sort_insert cmp x acc) acc xs) = rev (filter P xs) @ filter P acc"
proof (induction xs arbitrary: acc)
  case Nil
  then show ?case by simp
next
  case (Cons x xs)
  show ?case using assms by (simp add: Cons filter_sort_insert)
qed

lemma filter_array_sort:
  assumes "\<And>x y. cmp y x > 0 \<Longrightarrow> \<not> (P y \<and> P x)"
  shows "filter P (array_sort cmp xs) = filter P xs"
proof -
  have "filter P (foldl (\<lambda>acc x. sort_insert cmp x acc) [] xs) = rev (filter P xs)"
    using filter_sort_fold [of cmp P "[]" xs] assms by simp
  then have "rev (filter P (foldl (\<lambda>acc x. sort_insert cmp x acc) [] xs)) = filter P xs"
    by simp
  then show ?thesis unfolding array_sort_def rev_filter .
qed

subsection \<open>Rounding to a double\<close>

lemma round_half_even_int: "round_half_even (of_int m) = m"
  by (simp add: round_half_even_def)

lemma to_double_multiple:
  assumes "x = of_int m * 2 powi (binade x - 52)"
  shows "to_double x = x"
proof (cases "x = 0")
  case True
  then show ?thesis by (simp add: to_double_def)
next
  case False
  have p: "(2::real) powi (binade x - 52) \<noteq> 0" by simp
  have "x / 2 powi (binade x - 52) = of_int m"
    using assms p by (metis nonzero_mult_div_cancel_right)
  then show ?thesis using False assms by (simp add: to_double_def round_half_even_int)
qed

lemma binade_whole:
  assumes "1 \<le> \<bar>x\<bar>" "\<bar>x\<bar> \<le> 2 ^ 53"
  shows "0 \<le> binade x \<and> binade x \<le> 53 \<and> (binade x = 53 \<longrightarrow> \<bar>x\<bar> = 2 ^ 53)"
proof -
  have pos: "0 < \<bar>x\<bar>" using assms(1) by simp
  have p53: "log 2 ((2::real) ^ 53) = 53" by (subst log_pow_cancel) simp_all
  have l0: "0 \<le> log 2 \<bar>x\<bar>" using assms(1) pos by simp
  have "log 2 \<bar>x\<bar> \<le> log 2 (2 ^ 53)"
    using assms(2) pos by (subst log_le_cancel_iff) simp_all
  then have l1: "log 2 \<bar>x\<bar> \<le> 53" unfolding p53 .
  have f0: "0 \<le> \<lfloor>log 2 \<bar>x\<bar>\<rfloor>" using l0 by simp
  have f1: "\<lfloor>log 2 \<bar>x\<bar>\<rfloor> \<le> 53" using l1 by (simp add: floor_le_iff)
  have b: "binade x = \<lfloor>log 2 \<bar>x\<bar>\<rfloor>" using f0 by (simp add: binade_def)
  have "\<bar>x\<bar> = 2 ^ 53" if "binade x = 53"
  proof -
    have "\<lfloor>log 2 \<bar>x\<bar>\<rfloor> = 53" using that b by simp
    then have "of_int (53::int) \<le> log 2 \<bar>x\<bar>" by (simp only: floor_eq_iff)
    then have "53 \<le> log 2 \<bar>x\<bar>" by simp
    then have "log 2 (2 ^ 53) \<le> log 2 \<bar>x\<bar>" unfolding p53 .
    then have "2 ^ 53 \<le> \<bar>x\<bar>"
      using pos by (subst (asm) log_le_cancel_iff) simp_all
    then show ?thesis using assms(2) by simp
  qed
  then show ?thesis using b f0 f1 by simp
qed

lemma to_double_whole:
  assumes "of_int \<lfloor>x\<rfloor> = x" "\<bar>x\<bar> \<le> 2 ^ 53"
  shows "to_double x = x"
proof (cases "x = 0")
  case True
  then show ?thesis by (simp add: to_double_def)
next
  case False
  obtain n :: int where n: "x = of_int n" using assms(1) by metis
  have "n \<noteq> 0" using False n by simp
  then have "1 \<le> \<bar>n\<bar>" by simp
  then have one: "1 \<le> \<bar>x\<bar>" unfolding n by (metis of_int_1_le_iff of_int_abs)
  have b: "0 \<le> binade x" "binade x \<le> 53" "binade x = 53 \<longrightarrow> \<bar>x\<bar> = 2 ^ 53"
    using binade_whole [OF one assms(2)] by simp_all
  show ?thesis
  proof (cases "binade x = 53")
    case True
    then have "\<bar>x\<bar> = 2 ^ 53" using b(3) by simp
    then have "real_of_int \<bar>n\<bar> = 2 ^ 53" unfolding n by simp
    then have "\<bar>n\<bar> = 2 ^ 53" by simp
    then have "n = 2 ^ 53 \<or> n = - (2 ^ 53)" by linarith
    then have "even n" by auto
    then have "n = n div 2 * 2" by simp
    then have "real_of_int n = real_of_int (n div 2 * 2)" by simp
    then have "x = of_int (n div 2) * 2" unfolding n by simp
    then have "x = of_int (n div 2) * 2 powi (binade x - 52)" using True by simp
    then show ?thesis by (rule to_double_multiple)
  next
    case F2: False
    then have k: "0 \<le> 52 - binade x" using b(2) by simp
    have "(2::real) powi (binade x - 52) * 2 ^ nat (52 - binade x) = 1"
      using k by (simp add: power_int_def power_one_over)
    then have "x = of_int (n * 2 ^ nat (52 - binade x)) * 2 powi (binade x - 52)"
      unfolding n by (simp add: mult.assoc mult.commute)
    then show ?thesis by (rule to_double_multiple)
  qed
qed


lemma whole_pixel_diff:
  assumes "whole_pixel a" "whole_pixel b"
  shows "to_double (a - b) = a - b"
proof (rule to_double_whole)
  obtain m n :: int where mn: "a = of_int m" "b = of_int n"
    using assms unfolding whole_pixel_def by metis
  have "a - b = of_int (m - n)" unfolding mn by simp
  then show "of_int \<lfloor>a - b\<rfloor> = a - b" by (metis floor_of_int)
  show "\<bar>a - b\<bar> \<le> 2 ^ 53" using assms unfolding whole_pixel_def by linarith
qed

text \<open>
  Ten less \<open>2 powi (- 60)\<close> lies nearer to ten than to the double below ten, so that the
  comparator takes a word with top edge 10 and a word with top edge \<open>2 powi (- 60)\<close> to be
  on different lines.
\<close>

lemma binade_near_ten: "binade (10 - tiny) = 3"
proof -
  have "\<lfloor>log 2 (10 - tiny)\<rfloor> = 3"
    by (subst floor_log_eq_powr_iff) (simp_all add: tiny_def)
  moreover have "\<bar>10 - tiny\<bar> = 10 - tiny" by (simp add: tiny_def)
  ultimately show ?thesis by (simp add: binade_def)
qed

lemma to_double_near_ten: "to_double (10 - tiny) = 10"
proof -
  have p: "(2::real) powi (3 - 52) = 1 / 2 ^ 49" by (simp add: power_int_def power_one_over)
  have q: "(10 - tiny) / (1 / 2 ^ 49) = 5629499534213120 - 1 / 2048" by (simp add: tiny_def)
  have f: "\<lfloor>(5629499534213120::real) - 1 / 2048\<rfloor> = 5629499534213119"
    by (rule floor_unique) simp_all
  have r: "round_half_even (5629499534213120 - 1 / 2048) = 5629499534213120"
    unfolding round_half_even_def Let_def f by simp
  have "10 - tiny \<noteq> 0" by (simp add: tiny_def)
  then show ?thesis unfolding to_double_def binade_near_ten p q r by simp
qed


subsection \<open>The comparator of the blocks\<close>

lemma compareBlocks_whole:
  assumes "whole_block a" "whole_block b"
  shows "compareBlocks a b =
     (if \<bar>y0 (bbox a) - y0 (bbox b)\<bar> < 10 then x0 (bbox a) - x0 (bbox b)
      else y0 (bbox a) - y0 (bbox b))"
proof -
  have "to_double (y0 (bbox a) - y0 (bbox b)) = y0 (bbox a) - y0 (bbox b)"
    using assms by (simp add: whole_block_def whole_pixel_diff)
  moreover have "to_double (x0 (bbox a) - x0 (bbox b)) = x0 (bbox a) - x0 (bbox b)"
    using assms by (simp add: whole_block_def whole_pixel_diff)
  ultimately show ?thesis by (simp add: compareBlocks_def)
qed

lemma compareBlocks_anti:
  assumes "whole_block a" "whole_block b" "compareBlocks a b > 0"
  shows "compareBlocks b a \<le> 0"
  using assms(3) unfolding compareBlocks_whole [OF assms(1,2)] compareBlocks_whole [OF assms(2,1)]
  by (auto split: if_splits)

lemma compareBlocks_trans:
  assumes "whole_block a" "whole_block b" "whole_block c"
    and "same_line a b \<and> same_line b c \<longrightarrow> same_line a c"
    and "same_line c a \<and> same_line a b \<longrightarrow> same_line c b"
    and "same_line b c \<and> same_line c a \<longrightarrow> same_line b a"
    and "compareBlocks a b \<le> 0" and "compareBlocks b c \<le> 0"
  shows "compareBlocks a c \<le> 0"
  using assms(4-8)
  unfolding compareBlocks_whole [OF assms(1,2)] compareBlocks_whole [OF assms(2,3)]
    compareBlocks_whole [OF assms(1,3)]
  by (auto simp: same_line_def split: if_splits)

lemma compareBlocks_reading:
  assumes "whole_block a" "whole_block b" "compareBlocks a b \<le> 0"
  shows "reading_order a b"
  using assms(3) unfolding compareBlocks_whole [OF assms(1,2)]
  by (auto simp: reading_order_def split: if_splits)

lemma lines_separatedD:
  assumes "lines_separated ws" "a \<in> set ws" "b \<in> set ws" "c \<in> set ws"
    "same_line a b" "same_line b c"
  shows "same_line a c"
  using assms unfolding lines_separated_def by blast

lemma whole_pixelsD: "whole_pixels ws \<Longrightarrow> a \<in> set ws \<Longrightarrow> whole_block a"
  by (simp add: whole_pixels_def list_all_iff)

lemma compareBlocks_consistent:
  assumes whole: "whole_pixels ws" and sep: "lines_separated ws"
  shows "cmp_consistent compareBlocks (set ws)"
  unfolding cmp_consistent_def
proof (intro conjI ballI impI)
  fix a b c
  assume in_ws: "a \<in> set ws" "b \<in> set ws" "c \<in> set ws"
    and le: "compareBlocks a b \<le> 0" "compareBlocks b c \<le> 0"
  have w: "whole_block a" "whole_block b" "whole_block c"
    using whole in_ws by (simp_all add: whole_pixelsD)
  have 1: "same_line a b \<and> same_line b c \<longrightarrow> same_line a c"
    using lines_separatedD [OF sep in_ws] by blast
  have 2: "same_line c a \<and> same_line a b \<longrightarrow> same_line c b"
    using lines_separatedD [OF sep in_ws(3) in_ws(1) in_ws(2)] by blast
  have 3: "same_line b c \<and> same_line c a \<longrightarrow> same_line b a"
    using lines_separatedD [OF sep in_ws(2) in_ws(3) in_ws(1)] by blast
  show "compareBlocks a c \<le> 0"
    using compareBlocks_trans [OF w 1 2 3 le] .
next
  fix a b
  assume in_ws: "a \<in> set ws" "b \<in> set ws" and gt: "compareBlocks a b > 0"
  have "whole_block a" "whole_block b" using whole in_ws by (simp_all add: whole_pixelsD)
  then show "compareBlocks b a \<le> 0" using gt by (rule compareBlocks_anti)
qed

lemma compareBlocks_same_key:
  assumes "compareBlocks a b > 0"
  shows "\<not> ((x0 (bbox a) = x \<and> y0 (bbox a) = y) \<and> (x0 (bbox b) = x \<and> y0 (bbox b) = y))"
proof
  assume "(x0 (bbox a) = x \<and> y0 (bbox a) = y) \<and> (x0 (bbox b) = x \<and> y0 (bbox b) = y)"
  then have "compareBlocks a b = 0" by (simp add: compareBlocks_def to_double_def)
  then show False using assms by simp
qed

text \<open>
  Claim C2, as amended: for every filtered word list whose left and top edges are whole
  numbers of pixels between 0 and 2 ^ 53 (the comparator then subtracts without rounding)
  and in which "top edges differ by less than 10" is transitive (the words fall into
  separate lines), the output of the spatial sorter is a permutation of its input in
  which, for all pairs of words A before B, A.y0 < B.y0 when the top edges differ by 10 or
  more and A.x0 \<le> B.x0 otherwise; and the words with one and the same (x0, y0) keep their
  original relative order.
\<close>

theorem spatial_sort_reading_order:
  assumes "whole_pixels ws" "lines_separated ws"
  shows "sorted_wrt reading_order (spatialSort ws)
    \<and> mset (spatialSort ws) = mset ws
    \<and> (\<forall>x y. filter (\<lambda>w. x0 (bbox w) = x \<and> y0 (bbox w) = y) (spatialSort ws)
          = filter (\<lambda>w. x0 (bbox w) = x \<and> y0 (bbox w) = y) ws)"
proof (intro conjI allI)
  have "sorted_wrt (\<lambda>u v. compareBlocks u v \<le> 0) (array_sort compareBlocks ws)"
    using compareBlocks_consistent [OF assms] by (rule sorted_array_sort)
  then show "sorted_wrt reading_order (spatialSort ws)"
    unfolding spatialSort_def
  proof (rule sorted_wrt_mono_rel [rotated])
    fix a b
    assume "a \<in> set (array_sort compareBlocks ws)" "b \<in> set (array_sort compareBlocks ws)"
      and le: "compareBlocks a b \<le> 0"
    then have "whole_block a" "whole_block b"
      using assms(1) by (simp_all add: set_array_sort whole_pixelsD)
    then show "reading_order a b" using le by (rule compareBlocks_reading)
  qed
next
  show "mset (spatialSort ws) = mset ws"
    by (simp add: spatialSort_def mset_array_sort)
next
  fix x y
  show "filter (\<lambda>w. x0 (bbox w) = x \<and> y0 (bbox w) = y) (spatialSort ws)
          = filter (\<lambda>w. x0 (bbox w) = x \<and> y0 (bbox w) = y) ws"
    unfolding spatialSort_def
    by (rule filter_array_sort) (rule compareBlocks_same_key)
qed

theorem spatial_sort_reading_order_witness:
  "whole_pixels [word_at 50 12, word_at 5 100, word_at 3 8, word_at 50 12]
   \<and> lines_separated [word_at 50 12, word_at 5 100, word_at 3 8, word_at 50 12]
   \<and> sorted_wrt reading_order (spatialSort [word_at 50 12, word_at 5 100, word_at 3 8, word_at 50 12])
   \<and> spatialSort [word_at 50 12, word_at 5 100, word_at 3 8, word_at 50 12]
       = [word_at 3 8, word_at 50 12, word_at 50 12, word_at 5 100]"
proof -
  have w: "whole_pixels [word_at 50 12, word_at 5 100, word_at 3 8, word_at 50 12]"
    by (simp add: whole_pixels_def whole_block_def whole_pixel_def word_at_def)
  have h: "lines_separated [word_at 50 12, word_at 5 100, word_at 3 8, word_at 50 12]"
    by (simp add: lines_separated_def same_line_def word_at_def)
  have "spatialSort [word_at 50 12, word_at 5 100, word_at 3 8, word_at 50 12]
       = [word_at 3 8, word_at 50 12, word_at 50 12, word_at 5 100]"
    by (simp add: spatialSort_def array_sort_def compareBlocks_def word_at_def to_double_whole)
  then show ?thesis using w h spatial_sort_reading_order [OF w h] by simp
qed

text \<open>
  Claim C2 as stated fails: with top edges 18, 9 and 0 and left edges 1, 2 and 3 each
  neighbour is "on the same line" as the next and in left-to-right order, so the sorter
  leaves the list as it is, although the first word lies 18 below the last.
\<close>

theorem spatial_sort_counterexample:
  "\<not> sorted_wrt reading_order (spatialSort [word_at 1 18, word_at 2 9, word_at 3 0])"
  by (simp add: spatialSort_def array_sort_def compareBlocks_def word_at_def reading_order_def
      to_double_whole)

text \<open>
  The same three words admit no reading order at all: whatever permutation a sort
  returns for them, some pair of its words violates the claimed order.
\<close>

lemma reading_order_cycle:
  "\<not> reading_order (word_at 2 9) (word_at 1 18)"
  "\<not> reading_order (word_at 3 0) (word_at 2 9)"
  "\<not> reading_order (word_at 1 18) (word_at 3 0)"
  by (simp_all add: reading_order_def word_at_def)

lemma sorted_wrt_index_order:
  assumes "sorted_wrt P ys" "i < length ys" "j < length ys" "\<not> P (ys ! j) (ys ! i)"
    "ys ! i \<noteq> ys ! j"
  shows "i < j"
proof (rule ccontr)
  assume "\<not> i < j"
  then have "j < i" using assms(5) by (cases "i = j") auto
  then have "P (ys ! j) (ys ! i)" using assms(1,2) by (simp add: sorted_wrt_iff_nth_less)
  then show False using assms(4) by simp
qed

lemma no_reading_order_for_cycle:
  assumes "mset ys = mset [word_at 1 18, word_at 2 9, word_at 3 0]"
  shows "\<not> sorted_wrt reading_order ys"
proof
  assume s: "sorted_wrt reading_order ys"
  have "set ys = {word_at 1 18, word_at 2 9, word_at 3 0}"
    using mset_eq_setD [OF assms] by simp
  then obtain i j k where i: "i < length ys" "ys ! i = word_at 1 18"
    and j: "j < length ys" "ys ! j = word_at 2 9"
    and k: "k < length ys" "ys ! k = word_at 3 0"
    by (metis in_set_conv_nth insertI1 insertI2)
  have ne: "word_at 1 18 \<noteq> word_at 2 9" "word_at 2 9 \<noteq> word_at 3 0" "word_at 3 0 \<noteq> word_at 1 18"
    by (simp_all add: word_at_def)
  have "i < j"
    using s i(1) j(1) by (rule sorted_wrt_index_order) (simp_all add: i j reading_order_cycle ne)
  moreover have "j < k"
    using s j(1) k(1) by (rule sorted_wrt_index_order) (simp_all add: j k reading_order_cycle ne)
  moreover have "k < i"
    using s k(1) i(1) by (rule sorted_wrt_index_order) (simp_all add: k i reading_order_cycle ne)
  ultimately show False by simp
qed

text \<open>
  Outside whole pixels the rounding shows: a word with top edge 10 and a word to its
  right with top edge \<open>2 powi (- 60)\<close> are on the same line, yet the comparator sees a
  difference of 10 and puts the second word first.
\<close>

lemma fractional_edges_example:
  "lines_separated [word_at 0 10, word_at 5 tiny]
   \<and> spatialSort [word_at 0 10, word_at 5 tiny] = [word_at 5 tiny, word_at 0 10]
   \<and> \<not> sorted_wrt reading_order (spatialSort [word_at 0 10, word_at 5 tiny])"
proof -
  have t: "0 < tiny" "tiny < 20" by (simp_all add: tiny_def)
  have 1: "lines_separated [word_at 0 10, word_at 5 tiny]"
    using t by (simp add: lines_separated_def same_line_def word_at_def)
  have "compareBlocks (word_at 0 10) (word_at 5 tiny) = 10"
    by (simp add: compareBlocks_def word_at_def to_double_near_ten)
  then have 2: "spatialSort [word_at 0 10, word_at 5 tiny] = [word_at 5 tiny, word_at 0 10]"
    by (simp add: spatialSort_def array_sort_def)
  have "\<bar>tiny - 10\<bar> < 10" using t by linarith
  then have "\<not> reading_order (word_at 5 tiny) (word_at 0 10)"
    by (simp add: reading_order_def word_at_def)
  then show ?thesis using 1 2 by simp
qed

section \<open>The paragraph composer\<close>

subsection \<open>The loop of the source and the rule of the specification\<close>

lemma compose_fold_spec:
  "ss \<noteq> [] \<Longrightarrow> list_all (\<lambda>s. trim s \<noteq> []) ss \<Longrightarrow>
   paragraphs (foldl (compose_step (k + length ss)) \<lparr>paragraphs = ps, currentParagraph = cur\<rparr>
     (enumerate k ss)) = ps @ compose_spec cur ss"
proof (induction ss arbitrary: k ps cur)
  case Nil
  then show ?case by simp
next
  case (Cons s ss)
  have nb: "trim s \<noteq> []" using Cons.prems(2) by simp
  show ?case
  proof (cases "ss = []")
    case True
    then show ?thesis using nb
      by (simp add: compose_step_def shouldStartNewParagraph_def Let_def)
  next
    case False
    have rest: "list_all (\<lambda>s. trim s \<noteq> []) ss" using Cons.prems(2) by simp
    have n: "k + length (s # ss) = Suc (k + length ss)" by simp
    have notlast: "int k \<noteq> int (Suc (k + length ss)) - 1" using False by (cases ss) auto
    show ?thesis
    proof (cases "cur \<noteq> [] \<and> shouldStartNewParagraph cur s")
      case True
      have step: "compose_step (Suc (k + length ss)) \<lparr>paragraphs = ps, currentParagraph = cur\<rparr> (k, s)
          = \<lparr>paragraphs = ps @ [join [32] cur], currentParagraph = [s]\<rparr>"
        using nb True notlast by (simp add: compose_step_def Let_def)
      show ?thesis
        unfolding n using True Cons.IH [OF False rest, of "Suc k" "ps @ [join [32] cur]" "[s]"]
        by (simp add: step shouldStartNewParagraph_def)
    next
      case F2: False
      have step: "compose_step (Suc (k + length ss)) \<lparr>paragraphs = ps, currentParagraph = cur\<rparr> (k, s)
          = \<lparr>paragraphs = ps, currentParagraph = cur @ [s]\<rparr>"
        using nb F2 notlast by (auto simp add: compose_step_def Let_def)
      show ?thesis
        unfolding n using F2 Cons.IH [OF False rest, of "Suc k" ps "cur @ [s]"]
        by (auto simp add: step shouldStartNewParagraph_def)
    qed
  qed
qed

lemma composeParagraphs_spec:
  assumes "list_all (\<lambda>s. trim s \<noteq> []) ss"
  shows "composeParagraphs ss = compose_spec [] ss"
proof (cases "ss = []")
  case True
  then show ?thesis by (simp add: composeParagraphs_def)
next
  case False
  show ?thesis
    using compose_fold_spec [OF False assms, of 0 "[]" "[]"] by (simp add: composeParagraphs_def)
qed

subsection \<open>No paragraph holds more than three sentences\<close>

lemma compose_step_inv:
  assumes "composer_inv ss st" "s \<in> set ss"
  shows "composer_inv ss (compose_step n st (i, s))"
proof (cases "trim s = []")
  case True
  then show ?thesis using assms by (simp add: compose_step_def)
next
  case False
  let ?cur = "currentParagraph st"
  have cur: "length ?cur \<le> 3" "set ?cur \<subseteq> set ss" and ps: "\<forall>p\<in>set (paragraphs st). short_group ss p"
    using assms(1) by (simp_all add: composer_inv_def)
  define st1 where "st1 = (if shouldStartNewParagraph ?cur s \<and> 0 < length ?cur
       then \<lparr>paragraphs = paragraphs st @ [join [32] ?cur], currentParagraph = []\<rparr> else st)"
  define st2 where "st2 = st1\<lparr>currentParagraph := currentParagraph st1 @ [s]\<rparr>"
  have flushed: "short_group ss (join [32] ?cur)" if "0 < length ?cur"
    unfolding short_group_def using cur that by blast
  have len1: "length (currentParagraph st1) \<le> 2"
    using cur by (auto simp: st1_def shouldStartNewParagraph_def)
  have sub1: "set (currentParagraph st1) \<subseteq> set ss"
    using cur by (auto simp: st1_def)
  have ps1: "\<forall>p\<in>set (paragraphs st1). short_group ss p"
    using ps flushed by (auto simp: st1_def)
  have len2: "length (currentParagraph st2) \<le> 3" "currentParagraph st2 \<noteq> []"
    and sub2: "set (currentParagraph st2) \<subseteq> set ss"
    and ps2: "\<forall>p\<in>set (paragraphs st2). short_group ss p"
    using len1 sub1 ps1 assms(2) by (simp_all add: st2_def)
  have last: "short_group ss (join [32] (currentParagraph st2))"
    unfolding short_group_def using len2 sub2 by blast
  have inv2: "composer_inv ss st2"
    using len2 sub2 ps2 by (simp add: composer_inv_def)
  have inv3: "composer_inv ss (st2\<lparr>paragraphs := paragraphs st2 @ [join [32] (currentParagraph st2)]\<rparr>)"
    using len2 sub2 ps2 last by (simp add: composer_inv_def)
  have "compose_step n st (i, s) = (if int i = int n - 1 \<and> 0 < length (currentParagraph st2)
      then st2\<lparr>paragraphs := paragraphs st2 @ [join [32] (currentParagraph st2)]\<rparr> else st2)"
    using False by (simp add: compose_step_def Let_def st1_def st2_def)
  then show ?thesis using inv2 inv3 by simp
qed

lemma compose_fold_inv:
  "composer_inv ss st \<Longrightarrow> snd ` set xs \<subseteq> set ss \<Longrightarrow> composer_inv ss (foldl (compose_step n) st xs)"
proof (induction xs arbitrary: st)
  case Nil
  then show ?case by simp
next
  case (Cons x xs)
  have "composer_inv ss (compose_step n st (fst x, snd x))"
    by (rule compose_step_inv) (use Cons.prems in simp_all)
  then show ?case using Cons by simp
qed

lemma composeParagraphs_groups: "\<forall>p\<in>set (composeParagraphs ss). short_group ss p"
proof -
  have "composer_inv ss \<lparr>paragraphs = [], currentParagraph = []\<rparr>"
    by (simp add: composer_inv_def)
  moreover have "snd ` set (enumerate 0 ss) \<subseteq> set ss"
    by (auto simp: in_set_enumerate_eq)
  ultimately have "composer_inv ss (foldl (compose_step (length ss))
      \<lparr>paragraphs = [], currentParagraph = []\<rparr> (enumerate 0 ss))"
    by (rule compose_fold_inv)
  then show ?thesis
    by (simp add: composeParagraphs_def composer_inv_def)
qed

text \<open>
  Claim C10: for every sentence sequence, every paragraph produced by the paragraph
  composer is the space-join of at least one and at most 3 of the sentences: the check
  of the accumulator's length runs before each append.
\<close>

theorem paragraphs_at_most_three:
  "\<forall>p\<in>set (composeParagraphs ss). \<exists>g. g \<noteq> [] \<and> length g \<le> 3 \<and> set g \<subseteq> set ss \<and> p = join [32] g"
  using composeParagraphs_groups [of ss] by (simp add: short_group_def)

lemma long_sentence_eval: "long_sentence = [84, 104, 105, 115, 32, 115, 101, 110, 116, 101, 110, 99, 101, 32, 105, 115, 32, 108, 111, 110, 103, 32, 101, 110, 111, 117, 103, 104, 32, 116, 111, 32, 115, 116, 97, 121, 46]"
  by (simp add: long_sentence_def js_def)

theorem paragraphs_at_most_three_witness:
  "composeParagraphs [long_sentence, long_sentence, long_sentence, long_sentence]
     = [join [32] [long_sentence, long_sentence, long_sentence], long_sentence]
   \<and> (\<exists>g. g \<noteq> [] \<and> length g \<le> 3
         \<and> set g \<subseteq> set [long_sentence, long_sentence, long_sentence, long_sentence]
         \<and> join [32] [long_sentence, long_sentence, long_sentence] = join [32] g)"
proof -
  have e: "composeParagraphs [long_sentence, long_sentence, long_sentence, long_sentence]
     = [join [32] [long_sentence, long_sentence, long_sentence], long_sentence]"
    by (simp add: long_sentence_eval composeParagraphs_def compose_step_def
        shouldStartNewParagraph_def starts_with_quote_def ends_with_colon_def trim_def char_defs Let_def)
  have "\<forall>p\<in>set [join [32] [long_sentence, long_sentence, long_sentence], long_sentence].
      \<exists>g. g \<noteq> [] \<and> length g \<le> 3
        \<and> set g \<subseteq> set [long_sentence, long_sentence, long_sentence, long_sentence]
        \<and> p = join [32] g"
    using paragraphs_at_most_three [of "[long_sentence, long_sentence, long_sentence, long_sentence]"]
    unfolding e .
  then show ?thesis using e by simp
qed

section \<open>Facts about replacement\<close>

lemma replace_from_skip: "replace_from m k s = replace_from m 0 (drop k s)"
proof (induction s arbitrary: k)
  case Nil
  then show ?case by simp
next
  case (Cons c cs)
  then show ?case by (cases k) simp_all
qed

lemma replace_from_numeral:
  "replace_from m (numeral n) s = replace_from m 0 (drop (numeral n) s)"
  by (rule replace_from_skip)

text \<open>A property of code units that every replacement text has, given that the match has it.\<close>

lemma replace_from_all:
  assumes "\<forall>t len rep. m t = Some (len, rep) \<longrightarrow> list_all P t \<longrightarrow> list_all P rep"
  shows "list_all P s \<Longrightarrow> list_all P (replace_from m k s)"
proof (induction s arbitrary: k)
  case Nil
  then show ?case by simp
next
  case (Cons c cs)
  show ?case
  proof (cases k)
    case 0
    show ?thesis
    proof (cases "m (c # cs)")
      case None
      then show ?thesis using 0 Cons by simp
    next
      case (Some a)
      obtain len rep where a: "a = (len, rep)" by (cases a)
      have "list_all P rep" using assms Some a Cons.prems by blast
      then show ?thesis using 0 Some a Cons by simp
    qed
  next
    case (Suc j)
    then show ?thesis using Cons by simp
  qed
qed

text \<open>A property that every replacement text and every unmatched code unit has.\<close>

lemma replace_from_establishes:
  assumes "\<forall>t len rep. m t = Some (len, rep) \<longrightarrow> list_all P rep"
    and "\<forall>c cs. m (c # cs) = None \<longrightarrow> P c"
  shows "list_all P (replace_from m k s)"
proof (induction s arbitrary: k)
  case Nil
  then show ?case by simp
next
  case (Cons c cs)
  show ?case
  proof (cases k)
    case 0
    show ?thesis
    proof (cases "m (c # cs)")
      case None
      then have "P c" using assms(2) by blast
      then show ?thesis using 0 None Cons by simp
    next
      case (Some a)
      obtain len rep where a: "a = (len, rep)" by (cases a)
      have "list_all P rep" using assms(1) Some a by blast
      then show ?thesis using 0 Some a Cons by simp
    qed
  next
    case (Suc j)
    then show ?thesis using Cons by simp
  qed
qed

text \<open>A letter survives when no match swallows one.\<close>

lemma replace_from_keeps_letter:
  assumes "\<forall>t len rep. m t = Some (len, rep) \<longrightarrow>
      0 < len \<and> (list_ex is_alpha (take len t) \<longrightarrow> list_ex is_alpha rep)"
  shows "list_ex is_alpha (drop k s) \<Longrightarrow> list_ex is_alpha (replace_from m k s)"
proof (induction s arbitrary: k)
  case Nil
  then show ?case by simp
next
  case (Cons c cs)
  show ?case
  proof (cases k)
    case 0
    show ?thesis
    proof (cases "m (c # cs)")
      case None
      then show ?thesis using 0 Cons.prems Cons.IH [of 0] by auto
    next
      case (Some a)
      obtain len rep where a: "a = (len, rep)" by (cases a)
      have len: "0 < len" and keep: "list_ex is_alpha (take len (c # cs)) \<longrightarrow> list_ex is_alpha rep"
        using assms Some a by blast+
      have split: "c # cs = take len (c # cs) @ drop (len - 1) cs"
        using len by (cases len) simp_all
      have "list_ex is_alpha (take len (c # cs)) \<or> list_ex is_alpha (drop (len - 1) cs)"
        using Cons.prems 0 split by (metis drop0 list_ex_append)
      then have "list_ex is_alpha rep \<or> list_ex is_alpha (replace_from m (len - 1) cs)"
        using keep Cons.IH [of "len - 1"] by blast
      then show ?thesis using 0 Some a by auto
    qed
  next
    case (Suc j)
    then show ?thesis using Cons by simp
  qed
qed

section \<open>Sentences\<close>

lemma alpha_not_space: "is_alpha c \<Longrightarrow> \<not> is_space c"
  by (auto simp: char_defs)

lemma punct_not_space: "is_punct c \<Longrightarrow> \<not> is_space c"
  by (auto simp: char_defs)

lemma in_dropWhile: "x \<in> set xs \<Longrightarrow> \<not> P x \<Longrightarrow> x \<in> set (dropWhile P xs)"
  by (induction xs) auto

lemma in_trim: "c \<in> set s \<Longrightarrow> \<not> is_space c \<Longrightarrow> c \<in> set (trim s)"
  by (simp add: trim_def in_dropWhile)

lemma set_trim_subset: "set (trim s) \<subseteq> set s"
proof
  fix c assume "c \<in> set (trim s)"
  then have "c \<in> set (dropWhile is_space (rev (dropWhile is_space s)))" by (simp add: trim_def)
  then have "c \<in> set (rev (dropWhile is_space s))" by (rule set_dropWhileD)
  then have "c \<in> set (dropWhile is_space s)" by simp
  then show "c \<in> set s" by (rule set_dropWhileD)
qed

lemma trim_keeps_letter: "list_ex is_alpha s \<Longrightarrow> list_ex is_alpha (trim s)"
  using in_trim alpha_not_space unfolding list_ex_iff by blast

lemma trim_all: "list_all P s \<Longrightarrow> list_all P (trim s)"
  using set_trim_subset [of s] unfolding list_all_iff by blast

lemma letter_nonblank: "list_ex is_alpha s \<Longrightarrow> trim s \<noteq> []"
  using trim_keeps_letter [of s] by auto

lemma take_spaces: "take (length (takeWhile is_space t)) t = takeWhile is_space t"
  by (rule takeWhile_eq_take [symmetric])

lemma no_letter_in_spaces: "\<not> list_ex is_alpha (takeWhile is_space t)"
proof
  assume "list_ex is_alpha (takeWhile is_space t)"
  then obtain c where c: "c \<in> set (takeWhile is_space t)" "is_alpha c" unfolding list_ex_iff by blast
  have "is_space c" using set_takeWhileD [OF c(1)] by simp
  then show False using alpha_not_space [OF c(2)] by simp
qed

subsection \<open>The sentence clean-up keeps a letter\<close>

lemma capitalize_keeps_letter: "list_ex is_alpha s \<Longrightarrow> list_ex is_alpha (capitalize s)"
  by (cases s) (auto simp: capitalize_def char_defs)

lemma spaces_keeps_letter:
  "list_ex is_alpha s \<Longrightarrow> list_ex is_alpha (replaceAll match_spaces s)"
  unfolding replaceAll_def
proof (rule replace_from_keeps_letter)
  show "\<forall>t len rep. match_spaces t = Some (len, rep) \<longrightarrow>
      0 < len \<and> (list_ex is_alpha (take len t) \<longrightarrow> list_ex is_alpha rep)"
    using no_letter_in_spaces by (auto simp: match_spaces_def Let_def take_spaces split: if_splits)
qed simp

lemma contraction_keeps_letter:
  "list_ex is_alpha s \<Longrightarrow> list_ex is_alpha (replaceAll match_contraction s)"
  unfolding replaceAll_def
proof (rule replace_from_keeps_letter)
  show "\<forall>t len rep. match_contraction t = Some (len, rep) \<longrightarrow>
      0 < len \<and> (list_ex is_alpha (take len t) \<longrightarrow> list_ex is_alpha rep)"
    by (auto simp: match_contraction_def split: list.splits if_splits)
qed simp

lemma word_punct_keeps_letter:
  "list_ex is_alpha s \<Longrightarrow> list_ex is_alpha (replaceAll match_word_punct s)"
  unfolding replaceAll_def
proof (rule replace_from_keeps_letter)
  show "\<forall>t len rep. match_word_punct t = Some (len, rep) \<longrightarrow>
      0 < len \<and> (list_ex is_alpha (take len t) \<longrightarrow> list_ex is_alpha rep)"
  proof (intro allI impI)
    fix t len rep
    assume m: "match_word_punct t = Some (len, rep)"
    let ?w = "takeWhile is_word t"
    obtain p r where d: "drop (length ?w) t = p # r" and len: "len = length ?w + 1" and rep: "rep = ?w @ [p]"
      using m by (auto simp: match_word_punct_def Let_def split: list.splits if_splits)
    have "t = take (length ?w) t @ drop (length ?w) t" by simp
    then have "t = ?w @ p # r" using d by (simp add: takeWhile_eq_take [symmetric])
    then have "take len t = ?w @ [p]" using len
      by (metis append.assoc append_Cons append_Nil append_eq_conv_conj length_append_singleton Suc_eq_plus1)
    then show "0 < len \<and> (list_ex is_alpha (take len t) \<longrightarrow> list_ex is_alpha rep)"
      using len rep by simp
  qed
qed simp

lemma space_punct_keeps_letter:
  "list_ex is_alpha s \<Longrightarrow> list_ex is_alpha (replaceAll match_space_punct s)"
  unfolding replaceAll_def
proof (rule replace_from_keeps_letter)
  show "\<forall>t len rep. match_space_punct t = Some (len, rep) \<longrightarrow>
      0 < len \<and> (list_ex is_alpha (take len t) \<longrightarrow> list_ex is_alpha rep)"
  proof (intro allI impI)
    fix t len rep
    assume m: "match_space_punct t = Some (len, rep)"
    let ?w = "takeWhile is_space t"
    obtain p r where d: "drop (length ?w) t = p # r" and len: "len = length ?w + 1" and rep: "rep = [p]"
      using m by (auto simp: match_space_punct_def Let_def split: list.splits if_splits)
    have "t = take (length ?w) t @ drop (length ?w) t" by simp
    then have "t = ?w @ p # r" using d by (simp add: takeWhile_eq_take [symmetric])
    then have "take len t = ?w @ [p]" using len
      by (metis append.assoc append_Cons append_Nil append_eq_conv_conj length_append_singleton Suc_eq_plus1)
    then show "0 < len \<and> (list_ex is_alpha (take len t) \<longrightarrow> list_ex is_alpha rep)"
      using len rep no_letter_in_spaces [of t] by simp
  qed
qed simp

lemma punct_space_keeps_letter:
  "list_ex is_alpha s \<Longrightarrow> list_ex is_alpha (replaceAll match_punct_space s)"
  unfolding replaceAll_def
proof (rule replace_from_keeps_letter)
  show "\<forall>t len rep. match_punct_space t = Some (len, rep) \<longrightarrow>
      0 < len \<and> (list_ex is_alpha (take len t) \<longrightarrow> list_ex is_alpha rep)"
  proof (intro allI impI)
    fix t len rep
    assume m: "match_punct_space t = Some (len, rep)"
    obtain p r where t: "t = p # r" and p: "is_punct p"
      and len: "len = 1 + length (takeWhile is_space r)" and rep: "rep = [p, 32]"
      using m by (auto simp: match_punct_space_def split: list.splits if_splits)
    have "take len t = p # takeWhile is_space r"
      using t len by (simp add: take_spaces)
    moreover have "\<not> is_alpha p" using p by (auto simp: char_defs)
    ultimately show "0 < len \<and> (list_ex is_alpha (take len t) \<longrightarrow> list_ex is_alpha rep)"
      using len no_letter_in_spaces [of r] by simp
  qed
qed simp

lemma cleanSentence_keeps_letter:
  assumes "list_ex is_alpha s"
  shows "list_ex is_alpha (cleanSentence s)"
  unfolding cleanSentence_def Let_def
  by (intro trim_keeps_letter punct_space_keeps_letter space_punct_keeps_letter
      word_punct_keeps_letter contraction_keeps_letter spaces_keeps_letter
      capitalize_keeps_letter assms)

lemma keep_sentence_letter: "keep_sentence s \<Longrightarrow> list_ex is_alpha s"
  by (auto simp: keep_sentence_def no_letters_def list_all_iff list_ex_iff split: if_splits)

lemma processedSentences_letter:
  "u \<in> set (processedSentences cleaned) \<Longrightarrow> list_ex is_alpha u"
  by (auto simp: processedSentences_def intro: cleanSentence_keeps_letter keep_sentence_letter)

lemma processedSentences_nonblank:
  "list_all (\<lambda>s. trim s \<noteq> []) (processedSentences cleaned)"
  unfolding list_all_iff using processedSentences_letter letter_nonblank by blast

subsection \<open>The sentence clean-up leaves no white space but plain spaces\<close>

lemma spaces_plain: "list_all plain_char (replaceAll match_spaces s)"
  unfolding replaceAll_def
proof (rule replace_from_establishes)
  show "\<forall>t len rep. match_spaces t = Some (len, rep) \<longrightarrow> list_all plain_char rep"
    by (auto simp: match_spaces_def Let_def plain_char_def split: if_splits)
  show "\<forall>c cs. match_spaces (c # cs) = None \<longrightarrow> plain_char c"
    by (auto simp: match_spaces_def Let_def plain_char_def split: if_splits)
qed

lemma contraction_plain:
  "list_all plain_char s \<Longrightarrow> list_all plain_char (replaceAll match_contraction s)"
  unfolding replaceAll_def
proof (rule replace_from_all)
  show "\<forall>t len rep. match_contraction t = Some (len, rep) \<longrightarrow> list_all plain_char t
      \<longrightarrow> list_all plain_char rep"
    by (auto simp: match_contraction_def plain_char_def is_space_def split: list.splits if_splits)
qed

lemma hd_drop_in_set: "drop n t = p # r \<Longrightarrow> p \<in> set t"
  by (metis in_set_dropD list.set_intros(1))

lemma word_punct_plain:
  "list_all plain_char s \<Longrightarrow> list_all plain_char (replaceAll match_word_punct s)"
  unfolding replaceAll_def
proof (rule replace_from_all)
  show "\<forall>t len rep. match_word_punct t = Some (len, rep) \<longrightarrow> list_all plain_char t
      \<longrightarrow> list_all plain_char rep"
  proof (intro allI impI)
    fix t len rep
    assume m: "match_word_punct t = Some (len, rep)" and t: "list_all plain_char t"
    obtain p r where d: "drop (length (takeWhile is_word t)) t = p # r"
      and rep: "rep = takeWhile is_word t @ [p]"
      using m by (auto simp: match_word_punct_def Let_def split: list.splits if_splits)
    have "p \<in> set t" using d by (rule hd_drop_in_set)
    moreover have "set (takeWhile is_word t) \<subseteq> set t" by (auto dest: set_takeWhileD)
    ultimately show "list_all plain_char rep" using t rep unfolding list_all_iff by auto
  qed
qed

lemma space_punct_plain:
  "list_all plain_char s \<Longrightarrow> list_all plain_char (replaceAll match_space_punct s)"
  unfolding replaceAll_def
proof (rule replace_from_all)
  show "\<forall>t len rep. match_space_punct t = Some (len, rep) \<longrightarrow> list_all plain_char t
      \<longrightarrow> list_all plain_char rep"
  proof (intro allI impI)
    fix t len rep
    assume m: "match_space_punct t = Some (len, rep)" and t: "list_all plain_char t"
    obtain p r where d: "drop (length (takeWhile is_space t)) t = p # r" and rep: "rep = [p]"
      using m by (auto simp: match_space_punct_def Let_def split: list.splits if_splits)
    have "p \<in> set t" using d by (rule hd_drop_in_set)
    then show "list_all plain_char rep" using t rep unfolding list_all_iff by auto
  qed
qed

lemma punct_space_plain:
  "list_all plain_char s \<Longrightarrow> list_all plain_char (replaceAll match_punct_space s)"
  unfolding replaceAll_def
proof (rule replace_from_all)
  show "\<forall>t len rep. match_punct_space t = Some (len, rep) \<longrightarrow> list_all plain_char t
      \<longrightarrow> list_all plain_char rep"
    by (auto simp: match_punct_space_def plain_char_def split: list.splits if_splits)
qed

lemma cleanSentence_plain: "list_all plain_char (cleanSentence s)"
  unfolding cleanSentence_def Let_def
  by (intro trim_all punct_space_plain space_punct_plain word_punct_plain contraction_plain
      spaces_plain)

lemma processedSentences_plain:
  "u \<in> set (processedSentences cleaned) \<Longrightarrow> list_all plain_char u"
  by (auto simp: processedSentences_def cleanSentence_plain)

section \<open>Paragraphs of the document\<close>

lemma join_all:
  "list_all P sep \<Longrightarrow> \<forall>x\<in>set xs. list_all P x \<Longrightarrow> list_all P (join sep xs)"
  by (induction sep xs rule: join.induct) simp_all

lemma short_group_plain:
  assumes "short_group ss p" "\<forall>u\<in>set ss. list_all plain_char u"
  shows "list_all plain_char p"
proof -
  obtain g where g: "set g \<subseteq> set ss" "p = join [32] g"
    using assms(1) unfolding short_group_def by blast
  have "\<forall>x\<in>set g. list_all plain_char x" using g(1) assms(2) by blast
  moreover have "list_all plain_char [32]" by (simp add: plain_char_def)
  ultimately show ?thesis unfolding g(2) by (rule join_all [rotated])
qed

lemma documentParagraphs_plain:
  assumes "p \<in> set (documentParagraphs text)"
  shows "p \<noteq> [] \<and> list_all plain_char p"
proof -
  let ?ss = "processedSentences (normalizeText text)"
  obtain q where q: "q \<in> set (composeParagraphs ?ss)" "0 < length (trim q)" "p = trim q"
    using assms by (auto simp: documentParagraphs_def finalParagraphs_def)
  have "short_group ?ss q" using composeParagraphs_groups q(1) by blast
  then have "list_all plain_char q"
    by (rule short_group_plain) (simp add: processedSentences_plain)
  then have "list_all plain_char p" unfolding q(3) by (rule trim_all)
  then show ?thesis using q(2,3) by simp
qed

lemma plain_no_linefeed:
  assumes "list_all plain_char p"
  shows "10 \<notin> set p"
proof
  assume "10 \<in> set p"
  then have "plain_char 10" using assms unfolding list_all_iff by blast
  then show False by (simp add: plain_char_def is_space_def)
qed

section \<open>The scenario text\<close>

lemma scenario_text_eval: "scenario_text
   = [104,101,108,108,111,32,119,111,114,108,100,32,116,104,105,115,32,105,115,32,103,114,101,97,116,46,32,97,110,100,32,105,116,32,119,111,114,107,115,32,119,101,108,108,46,32,111,107,46]"
  by (simp add: scenario_text_def js_def)

lemma nav_labels_eval: "nav_labels = [[72,111,109,101],[78,101,119,115],[83,112,111,114,116],
  [66,117,115,105,110,101,115,115],[73,110,110,111,118,97,116,105,111,110],
  [67,117,108,116,117,114,101],[65,114,116,115],[84,114,97,118,101,108],[69,97,114,116,104],
  [65,117,100,105,111],[86,105,100,101,111],[76,105,118,101]]"
  by (simp add: nav_labels_def js_def)

lemmas normalize_eval = normalizeText_def replaceAll_def replace_from_numeral matcher_defs
  char_defs Let_def trim_def nav_menu_literal_def js_def nav_labels_eval

lemmas sentence_eval = cleanSentence_def capitalize_def replaceAll_def replace_from_numeral
  matcher_defs char_defs Let_def trim_def js_def keep_sentence_def short_caps_def no_letters_def

lemmas compose_eval = composeParagraphs_def compose_step_def shouldStartNewParagraph_def
  starts_with_quote_def ends_with_colon_def trim_def char_defs Let_def js_def finalParagraphs_def

lemma scenario_normalized: "normalizeText scenario_text = scenario_text"
  unfolding scenario_text_eval by (simp add: normalize_eval)

lemma scenario_split: "splitSentences scenario_text
   = [js ''hello world this is great.'', js ''and it works well.'', js ''ok.'']"
  unfolding scenario_text_eval by (simp add: splitSentences_def char_defs js_def)

lemma scenario_sentences: "processedSentences scenario_text
   = [js ''Hello world this is great.'', js ''And it works well.'']"
  unfolding processedSentences_def scenario_split by (simp add: sentence_eval)

lemma scenario_paragraphs: "documentParagraphs scenario_text
   = [js ''Hello world this is great.'', js ''And it works well.'']"
  unfolding documentParagraphs_def scenario_normalized scenario_sentences
  by (simp add: compose_eval)

section \<open>Claims about the composer and the document\<close>

text \<open>
  Claim C3: the paragraph composer closes the accumulator exactly when it is non-empty and
  the current sentence meets one of the four conditions (3 sentences or more held, a
  leading quotation mark, fewer than 30 code units, a final colon), appends the sentence
  after that check, and closes a non-empty accumulator after the last sentence: on every
  sequence of non-blank sentences the loop of the source computes what this rule
  computes, and every sentence sequence the segmenter produces is of that kind.
\<close>

theorem composer_flush_rule:
  "(list_all (\<lambda>s. trim s \<noteq> []) ss \<longrightarrow> composeParagraphs ss = compose_spec [] ss)
   \<and> list_all (\<lambda>s. trim s \<noteq> []) (processedSentences cleaned)
   \<and> composeParagraphs (processedSentences cleaned) = compose_spec [] (processedSentences cleaned)"
  using composeParagraphs_spec processedSentences_nonblank by blast

theorem composer_flush_rule_witness:
  "list_all (\<lambda>s. trim s \<noteq> []) [long_sentence, js ''Short one.'', long_sentence]
   \<and> composeParagraphs [long_sentence, js ''Short one.'', long_sentence]
       = compose_spec [] [long_sentence, js ''Short one.'', long_sentence]
   \<and> compose_spec [] [long_sentence, js ''Short one.'', long_sentence]
       = [long_sentence, join [32] [js ''Short one.'', long_sentence]]"
proof -
  have h: "list_all (\<lambda>s. trim s \<noteq> []) [long_sentence, js ''Short one.'', long_sentence]"
    by (simp add: long_sentence_eval js_def trim_def char_defs)
  have "compose_spec [] [long_sentence, js ''Short one.'', long_sentence]
       = [long_sentence, join [32] [js ''Short one.'', long_sentence]]"
    by (simp add: long_sentence_eval js_def starts_with_quote_def ends_with_colon_def char_defs)
  then show ?thesis
    using h composer_flush_rule [of "[long_sentence, js ''Short one.'', long_sentence]"] by simp
qed

text \<open>
  Claim C4: for every input, the final document is its paragraphs joined by the
  two-character separator of two line feeds; no paragraph is the empty string and no
  paragraph contains a line feed, so consecutive paragraphs are separated by exactly one
  blank line.
\<close>

theorem document_paragraphs:
  "cleanTextLocally text = join [10, 10] (documentParagraphs text)
   \<and> (\<forall>p\<in>set (documentParagraphs text). p \<noteq> [] \<and> 10 \<notin> set p)"
  using documentParagraphs_plain plain_no_linefeed by (simp add: cleanTextLocally_def)

theorem document_paragraphs_witness:
  "documentParagraphs scenario_text = [js ''Hello world this is great.'', js ''And it works well.'']
   \<and> cleanTextLocally scenario_text
       = js ''Hello world this is great.'' @ [10, 10] @ js ''And it works well.''
   \<and> js ''Hello world this is great.'' \<noteq> [] \<and> 10 \<notin> set (js ''Hello world this is great.'')
   \<and> js ''And it works well.'' \<noteq> [] \<and> 10 \<notin> set (js ''And it works well.'')"
  using document_paragraphs [of scenario_text] by (simp add: scenario_paragraphs)

text \<open>
  Claim C5, as amended: on the normalised input
  "hello world this is great. and it works well. ok." the segmenter splits three pieces
  and keeps two of them, "ok." being shorter than 5; it produces the capitalised
  sentences "Hello world this is great." and "And it works well.", and, each being
  shorter than 30, the composer emits a document of two paragraphs separated by a blank
  line.
\<close>

theorem scenario_two_paragraphs:
  "normalizeText scenario_text = scenario_text
   \<and> splitSentences scenario_text
       = [js ''hello world this is great.'', js ''and it works well.'', js ''ok.'']
   \<and> \<not> keep_sentence (js ''ok.'')
   \<and> processedSentences scenario_text
       = [js ''Hello world this is great.'', js ''And it works well.'']
   \<and> cleanTextLocally scenario_text
       = js ''Hello world this is great.'' @ [10, 10] @ js ''And it works well.''"
  by (simp add: scenario_normalized scenario_split scenario_sentences cleanTextLocally_def
      scenario_paragraphs keep_sentence_def js_def)

text \<open>
  Claim C5 as stated fails: the sentences are not the three of the scenario, and the
  document is not the three paragraphs.
\<close>

theorem scenario_three_counterexample:
  "processedSentences (normalizeText scenario_text)
     \<noteq> [js ''Hello world this is great.'', js ''And it works well.'', js ''Ok.'']
   \<and> cleanTextLocally scenario_text
     \<noteq> join [10, 10] [js ''Hello world this is great.'', js ''And it works well.'', js ''Ok.'']"
  by (simp add: scenario_normalized scenario_sentences cleanTextLocally_def scenario_paragraphs js_def)

section \<open>Quotation marks\<close>

text \<open>
  Claim C6 at the sentence "It s a fine day today." written with the typographic
  apostrophe (code unit 8217) between "It" and "s": the normaliser puts a space in its place, as line 224 replaces every code
  unit outside its class before lines 229 and 230 run, and the classes of those two
  lines hold the straight marks and the bar only.
\<close>

theorem curly_apostrophe_becomes_space:
  "normalizeText curly_text = js ''It s a fine day today.''
   \<and> 39 \<notin> set (normalizeText curly_text)
   \<and> cleanTextLocally curly_text = js ''It s a fine day today.''"
proof -
  have n: "normalizeText curly_text = js ''It s a fine day today.''"
    by (simp add: curly_text_def normalize_eval)
  have "splitSentences (js ''It s a fine day today.'') = [js ''It s a fine day today.'']"
    by (simp add: splitSentences_def char_defs js_def)
  then have "processedSentences (js ''It s a fine day today.'') = [js ''It s a fine day today.'']"
    unfolding processedSentences_def by (simp add: sentence_eval)
  then have "documentParagraphs curly_text = [js ''It s a fine day today.'']"
    unfolding documentParagraphs_def n by (simp add: compose_eval)
  then show ?thesis using n by (simp add: cleanTextLocally_def js_def)
qed

section \<open>Running the pass twice\<close>

lemma pi_sentences: "processedSentences pi_text = [js ''3. 14 is the value of pi.'']"
proof -
  have "splitSentences pi_text = [pi_text]"
    by (simp add: pi_text_def splitSentences_def char_defs js_def)
  then show ?thesis
    unfolding processedSentences_def by (simp add: pi_text_def sentence_eval)
qed

lemma pi_first: "cleanTextLocally pi_text = js ''3. 14 is the value of pi.''"
proof -
  have n: "normalizeText pi_text = pi_text"
    by (simp add: pi_text_def normalize_eval)
  have "documentParagraphs pi_text = [js ''3. 14 is the value of pi.'']"
    unfolding documentParagraphs_def n pi_sentences by (simp add: compose_eval)
  then show ?thesis by (simp add: cleanTextLocally_def)
qed

lemma pi_second: "cleanTextLocally (js ''3. 14 is the value of pi.'') = js ''14 is the value of pi.''"
proof -
  have n: "normalizeText (js ''3. 14 is the value of pi.'') = js ''3. 14 is the value of pi.''"
    by (simp add: normalize_eval)
  have "splitSentences (js ''3. 14 is the value of pi.'') = [js ''3.'', js ''14 is the value of pi.'']"
    by (simp add: splitSentences_def char_defs js_def)
  then have "processedSentences (js ''3. 14 is the value of pi.'') = [js ''14 is the value of pi.'']"
    unfolding processedSentences_def by (simp add: sentence_eval)
  then have "documentParagraphs (js ''3. 14 is the value of pi.'') = [js ''14 is the value of pi.'']"
    unfolding documentParagraphs_def n by (simp add: compose_eval)
  then show ?thesis by (simp add: cleanTextLocally_def)
qed

text \<open>
  Claim C7 as stated fails: the first pass turns "3.14 is the value of pi." into
  "3. 14 is the value of pi.", and the second pass splits that at the new space and drops
  the piece "3."; the two documents differ in more than white space.
\<close>

theorem rerun_counterexample:
  "cleanTextLocally pi_text = js ''3. 14 is the value of pi.''
   \<and> cleanTextLocally (cleanTextLocally pi_text) = js ''14 is the value of pi.''
   \<and> cleanTextLocally (cleanTextLocally pi_text) \<noteq> cleanTextLocally pi_text"
  unfolding pi_first pi_second by (simp add: js_def)

section \<open>The sentence clean-up applied twice\<close>

subsection \<open>Patterns that put back what they match\<close>

lemma replace_from_same:
  assumes "\<forall>t len rep. m t = Some (len, rep) \<longrightarrow> 0 < len \<and> rep = take len t"
  shows "replace_from m k s = drop k s"
proof (induction s arbitrary: k)
  case Nil
  then show ?case by simp
next
  case (Cons c cs)
  show ?case
  proof (cases k)
    case 0
    show ?thesis
    proof (cases "m (c # cs)")
      case None
      then show ?thesis using 0 Cons by simp
    next
      case (Some a)
      obtain len rep where a: "a = (len, rep)" by (cases a)
      have len: "0 < len" and rep: "rep = take len (c # cs)"
        using assms Some a by blast+
      obtain j where j: "len = Suc j" using len by (cases len) auto
      show ?thesis using 0 Some a rep j Cons.IH [of j] by simp
    qed
  next
    case (Suc j)
    then show ?thesis using Cons by simp
  qed
qed

lemma take_while_snoc:
  assumes "drop (length (takeWhile P t)) t = p # r"
  shows "take (length (takeWhile P t) + 1) t = takeWhile P t @ [p]"
proof -
  have "t = take (length (takeWhile P t)) t @ drop (length (takeWhile P t)) t" by simp
  then have "t = takeWhile P t @ p # r" using assms by (simp add: takeWhile_eq_take [symmetric])
  then have "take (length (takeWhile P t) + 1) t = take (length (takeWhile P t) + 1) (takeWhile P t @ p # r)"
    by simp
  then show ?thesis by simp
qed

lemma contraction_same: "replaceAll match_contraction s = s"
proof -
  have "\<forall>t len rep. match_contraction t = Some (len, rep) \<longrightarrow> 0 < len \<and> rep = take len t"
    by (auto simp: match_contraction_def split: list.splits if_splits)
  then show ?thesis unfolding replaceAll_def using replace_from_same [of match_contraction 0 s] by simp
qed

lemma word_punct_same: "replaceAll match_word_punct s = s"
proof -
  have "\<forall>t len rep. match_word_punct t = Some (len, rep) \<longrightarrow> 0 < len \<and> rep = take len t"
  proof (intro allI impI)
    fix t len rep
    assume m: "match_word_punct t = Some (len, rep)"
    obtain p r where d: "drop (length (takeWhile is_word t)) t = p # r"
      and len: "len = length (takeWhile is_word t) + 1" and rep: "rep = takeWhile is_word t @ [p]"
      using m by (auto simp: match_word_punct_def Let_def split: list.splits if_splits)
    show "0 < len \<and> rep = take len t" using take_while_snoc [OF d] len rep by simp
  qed
  then show ?thesis unfolding replaceAll_def using replace_from_same [of match_word_punct 0 s] by simp
qed

lemma cleanSentence_short:
  "cleanSentence s = trim (respace (unspace (collapse (capitalize s))))"
  by (simp add: cleanSentence_def contraction_same word_punct_same)

subsection \<open>The three scans as recursions\<close>

lemma replaceAll_Nil: "replaceAll m [] = []"
  by (simp add: replaceAll_def)

lemma collapse_Cons:
  "collapse (c # cs) =
     (if is_space c then 32 # collapse (dropWhile is_space cs) else c # collapse cs)"
proof (cases "is_space c")
  case True
  then have "match_spaces (c # cs) = Some (1 + length (takeWhile is_space cs), [32])"
    by (simp add: match_spaces_def)
  then show ?thesis using True
    by (simp add: replaceAll_def replace_from_skip [of _ "length (takeWhile is_space cs)"]
        dropWhile_eq_drop)
next
  case False
  then have "match_spaces (c # cs) = None" by (simp add: match_spaces_def)
  then show ?thesis using False by (simp add: replaceAll_def)
qed

lemma respace_Cons:
  "respace (c # cs) =
     (if is_punct c then c # 32 # respace (dropWhile is_space cs) else c # respace cs)"
proof (cases "is_punct c")
  case True
  then have "match_punct_space (c # cs) = Some (1 + length (takeWhile is_space cs), [c, 32])"
    by (simp add: match_punct_space_def)
  then show ?thesis using True
    by (simp add: replaceAll_def replace_from_skip [of _ "length (takeWhile is_space cs)"]
        dropWhile_eq_drop)
next
  case False
  then have "match_punct_space (c # cs) = None" by (simp add: match_punct_space_def)
  then show ?thesis using False by (simp add: replaceAll_def)
qed

lemma unspace_nonspace: "\<not> is_space c \<Longrightarrow> unspace (c # cs) = c # unspace cs"
proof -
  assume "\<not> is_space c"
  then have "match_space_punct (c # cs) = None"
    by (simp add: match_space_punct_def)
  then show ?thesis by (simp add: replaceAll_def)
qed

lemma unspace_space:
  assumes "is_space c"
  shows "unspace (c # cs) =
     (case dropWhile is_space cs of
        [] \<Rightarrow> c # unspace cs
      | p # r \<Rightarrow> if is_punct p then p # unspace r else c # unspace cs)"
proof -
  let ?k = "length (takeWhile is_space cs)"
  have n: "length (takeWhile is_space (c # cs)) = Suc ?k" using assms by simp
  have d: "drop (Suc ?k) (c # cs) = dropWhile is_space cs" by (simp add: dropWhile_eq_drop)
  have t: "drop (Suc ?k) cs = tl (dropWhile is_space cs)"
    by (simp add: dropWhile_eq_drop drop_Suc tl_drop)
  show ?thesis
  proof (cases "dropWhile is_space cs")
    case Nil
    have "match_space_punct (c # cs) = None"
      unfolding match_space_punct_def Let_def n d Nil by simp
    then have "unspace (c # cs) = c # unspace cs" by (simp add: replaceAll_def)
    then show ?thesis unfolding Nil by simp
  next
    case (Cons p r)
    show ?thesis
    proof (cases "is_punct p")
      case True
      have "match_space_punct (c # cs) = Some (Suc ?k + 1, [p])"
        unfolding match_space_punct_def Let_def n d Cons using True by simp
      moreover have "drop (Suc ?k) cs = r" unfolding t Cons by simp
      ultimately have "unspace (c # cs) = p # unspace r"
        by (simp add: replaceAll_def replace_from_skip [of _ "Suc ?k"])
      then show ?thesis unfolding Cons using True by simp
    next
      case False
      have "match_space_punct (c # cs) = None"
        unfolding match_space_punct_def Let_def n d Cons using False by simp
      then have "unspace (c # cs) = c # unspace cs" by (simp add: replaceAll_def)
      then show ?thesis unfolding Cons using False by simp
    qed
  qed
qed

subsection \<open>Where a string starts and ends\<close>

lemma starts_nonspace_dropWhile: "starts_nonspace (dropWhile is_space s)"
  by (induction s) (simp_all add: starts_nonspace_def)

lemma starts_nonspace_dropWhile_id: "starts_nonspace s \<Longrightarrow> dropWhile is_space s = s"
  by (cases s) (simp_all add: starts_nonspace_def)

lemma starts_nonspace_Cons: "starts_nonspace (c # cs) = (\<not> is_space c)"
  by (simp add: starts_nonspace_def)

lemma collapse_starts: "starts_nonspace s \<Longrightarrow> starts_nonspace (collapse s)"
  by (cases s) (simp_all add: starts_nonspace_def collapse_Cons replaceAll_Nil)

lemma unspace_starts: "starts_nonspace s \<Longrightarrow> starts_nonspace (unspace s)"
  by (cases s) (simp_all add: starts_nonspace_def unspace_nonspace replaceAll_Nil)

lemma respace_starts: "starts_nonspace s \<Longrightarrow> starts_nonspace (respace s)"
  by (cases s) (simp_all add: starts_nonspace_def respace_Cons replaceAll_Nil)

lemma last_dropWhile:
  "dropWhile P s \<noteq> [] \<Longrightarrow> last (dropWhile P s) = last s"
  by (induction s) (auto split: if_splits)

lemma dropWhile_ends:
  assumes "s \<noteq> []" "\<not> is_space (last s)"
  shows "dropWhile is_space s \<noteq> [] \<and> last (dropWhile is_space s) = last s"
proof -
  have "last s \<in> set s" using assms(1) by simp
  then have "dropWhile is_space s \<noteq> []" using assms(2) by (auto simp: dropWhile_eq_Nil_conv)
  then show ?thesis using last_dropWhile by blast
qed

lemma dropWhile_snoc_space:
  assumes "s \<noteq> []" "\<not> is_space (last s)"
  shows "dropWhile is_space (s @ [32]) = dropWhile is_space s @ [32]"
proof -
  have "last s \<in> set s" using assms(1) by simp
  then show ?thesis using assms(2) by (rule dropWhile_append1)
qed

lemma trim_ends:
  "trim s = [] \<or> (\<not> is_space (hd (trim s)) \<and> \<not> is_space (last (trim s)))"
proof (cases "trim s = []")
  case True
  then show ?thesis by simp
next
  case False
  let ?a = "dropWhile is_space s"
  let ?b = "dropWhile is_space (rev ?a)"
  have b: "?b \<noteq> []" using False by (simp add: trim_def)
  have "dropWhile is_space (rev xs) \<noteq> [] \<Longrightarrow> xs \<noteq> []" for xs :: jsstring by auto
  then have a: "?a \<noteq> []" using b by blast
  have "\<not> is_space (hd ?b)" using b by (rule hd_dropWhile)
  then have 1: "\<not> is_space (last (trim s))" using b by (simp add: trim_def last_rev)
  have "last ?b = last (rev ?a)" using b by (rule last_dropWhile)
  then have "hd (trim s) = hd ?a" using a b by (simp add: trim_def hd_rev last_rev)
  moreover have "\<not> is_space (hd ?a)" using a by (rule hd_dropWhile)
  ultimately show ?thesis using 1 by simp
qed

lemma trim_same:
  assumes "starts_nonspace s" "ends_nonspace s"
  shows "trim s = s"
proof (cases "s = []")
  case True
  then show ?thesis by (simp add: trim_def)
next
  case False
  have 1: "dropWhile is_space s = s" using assms(1) by (rule starts_nonspace_dropWhile_id)
  have "\<not> is_space (hd (rev s))" using assms(2) False by (simp add: ends_nonspace_def hd_rev)
  then have "dropWhile is_space (rev s) = rev s" using False by (cases "rev s") simp_all
  then show ?thesis using 1 by (simp add: trim_def)
qed

lemma trim_snoc_space:
  assumes "starts_nonspace s" "s \<noteq> []" "\<not> is_space (last s)"
  shows "trim (s @ [32]) = s"
proof -
  have "starts_nonspace (s @ [32])" using assms(1,2) by (cases s) (simp_all add: starts_nonspace_def)
  then have 1: "dropWhile is_space (s @ [32]) = s @ [32]" by (rule starts_nonspace_dropWhile_id)
  have "\<not> is_space (hd (rev s))" using assms(2,3) by (simp add: hd_rev)
  then have "dropWhile is_space (rev s) = rev s" using assms(2) by (cases "rev s") simp_all
  then show ?thesis using 1 by (simp add: trim_def is_space_def)
qed

subsection \<open>Single spaces\<close>

lemma single_spaced_Cons:
  "single_spaced (c # r) = (plain_char c \<and> (is_space c \<longrightarrow> starts_nonspace r) \<and> single_spaced r)"
  by (cases r) (auto simp: starts_nonspace_def)

lemma tidy_Cons:
  "tidy (c # r) = (plain_char c \<and> (is_space c \<longrightarrow> starts_word r) \<and> tidy r)"
  by (cases r) (auto simp: starts_word_def)

lemma starts_word_nonspace: "starts_word s \<Longrightarrow> starts_nonspace s"
  by (cases s) (simp_all add: starts_word_def starts_nonspace_def)

lemma tidy_dropWhile: "tidy s \<Longrightarrow> tidy (dropWhile P s)"
  by (induction s) (simp_all add: tidy_Cons)

lemma plain_nonspace: "\<not> is_space c \<Longrightarrow> plain_char c"
  by (simp add: plain_char_def)

lemma plain_space: "plain_char c \<Longrightarrow> is_space c \<Longrightarrow> c = 32"
  by (simp add: plain_char_def)

lemma collapse_single: "single_spaced (collapse x)"
proof (induction x rule: length_induct)
  case (1 x)
  show ?case
  proof (cases x)
    case Nil
    then show ?thesis by (simp add: replaceAll_Nil)
  next
    case (Cons c cs)
    show ?thesis
    proof (cases "is_space c")
      case True
      have "length (dropWhile is_space cs) < length x"
        using Cons length_dropWhile_le [of is_space cs] by simp
      then have "single_spaced (collapse (dropWhile is_space cs))" using 1 by blast
      moreover have "starts_nonspace (collapse (dropWhile is_space cs))"
        by (rule collapse_starts) (rule starts_nonspace_dropWhile)
      moreover have "plain_char 32" by (simp add: plain_char_def)
      ultimately show ?thesis using Cons True by (simp add: collapse_Cons single_spaced_Cons)
    next
      case False
      have "single_spaced (collapse cs)" using 1 Cons by simp
      then show ?thesis using Cons False
        by (simp add: collapse_Cons single_spaced_Cons plain_nonspace)
    qed
  qed
qed

lemma single_collapse_same: "single_spaced w \<Longrightarrow> collapse w = w"
proof (induction w)
  case Nil
  then show ?case by (simp add: replaceAll_Nil)
next
  case (Cons c cs)
  have p: "plain_char c" and s: "is_space c \<longrightarrow> starts_nonspace cs" and r: "single_spaced cs"
    using Cons.prems by (simp_all add: single_spaced_Cons)
  show ?case
  proof (cases "is_space c")
    case True
    have "dropWhile is_space cs = cs" using s True starts_nonspace_dropWhile_id by blast
    moreover have "c = 32" using p True by (rule plain_space)
    ultimately show ?thesis using True Cons.IH [OF r] by (simp add: collapse_Cons)
  next
    case False
    then show ?thesis using Cons.IH [OF r] by (simp add: collapse_Cons)
  qed
qed

lemma unspace_tidy: "single_spaced y \<Longrightarrow> tidy (unspace y)"
proof (induction y rule: length_induct)
  case (1 y)
  show ?case
  proof (cases y)
    case Nil
    then show ?thesis by (simp add: replaceAll_Nil)
  next
    case (Cons c cs)
    have p: "plain_char c" and s: "is_space c \<longrightarrow> starts_nonspace cs" and r: "single_spaced cs"
      using 1(2) Cons by (simp_all add: single_spaced_Cons)
    have ih: "tidy (unspace cs)" using 1(1) Cons r by simp
    show ?thesis
    proof (cases "is_space c")
      case False
      then show ?thesis using Cons p ih by (simp add: unspace_nonspace tidy_Cons)
    next
      case True
      then have d: "dropWhile is_space cs = cs" using s starts_nonspace_dropWhile_id by blast
      show ?thesis
      proof (cases cs)
        case Nil
        then show ?thesis using Cons True p by (simp add: unspace_space replaceAll_Nil)
      next
        case cs: (Cons q r')
        have q: "\<not> is_space q" using s True cs by (simp add: starts_nonspace_def)
        have u: "unspace cs = q # unspace r'" using q cs by (simp add: unspace_nonspace)
        show ?thesis
        proof (cases "is_punct q")
          case T2: True
          have "unspace y = q # unspace r'"
            unfolding Cons unspace_space [OF True] d using cs T2 by simp
          then show ?thesis using ih u by simp
        next
          case F2: False
          have "unspace y = c # unspace cs"
            unfolding Cons unspace_space [OF True] d using cs F2 by simp
          moreover have "starts_word (unspace cs)" using u q F2 by (simp add: starts_word_def)
          ultimately show ?thesis using p ih by (simp add: tidy_Cons)
        qed
      qed
    qed
  qed
qed

lemma respace_single: "tidy v \<Longrightarrow> single_spaced (respace v)"
proof (induction v rule: length_induct)
  case (1 v)
  show ?case
  proof (cases v)
    case Nil
    then show ?thesis by (simp add: replaceAll_Nil)
  next
    case (Cons c cs)
    have p: "plain_char c" and s: "is_space c \<longrightarrow> starts_word cs" and r: "tidy cs"
      using 1(2) Cons by (simp_all add: tidy_Cons)
    show ?thesis
    proof (cases "is_punct c")
      case True
      let ?d = "dropWhile is_space cs"
      have "length ?d < length v" using Cons length_dropWhile_le [of is_space cs] by simp
      moreover have "tidy ?d" using r by (rule tidy_dropWhile)
      ultimately have "single_spaced (respace ?d)" using 1(1) by blast
      moreover have "starts_nonspace (respace ?d)"
        by (rule respace_starts) (rule starts_nonspace_dropWhile)
      moreover have "plain_char 32" by (simp add: plain_char_def)
      ultimately show ?thesis using Cons True p punct_not_space [OF True]
        by (simp add: respace_Cons single_spaced_Cons)
    next
      case False
      have "single_spaced (respace cs)" using 1(1) Cons r by simp
      moreover have "is_space c \<longrightarrow> starts_nonspace (respace cs)"
        using s starts_word_nonspace respace_starts by blast
      ultimately show ?thesis using Cons False p
        by (simp add: respace_Cons single_spaced_Cons)
    qed
  qed
qed

subsection \<open>Putting the spaces back a second time\<close>

lemma unspace_after_space:
  assumes "starts_nonspace r"
  shows "dropWhile is_space (unspace (32 # r)) = unspace r"
proof -
  have sp: "is_space 32" by (simp add: is_space_def)
  have d: "dropWhile is_space r = r" using assms by (rule starts_nonspace_dropWhile_id)
  have u: "dropWhile is_space (unspace r) = unspace r"
    using assms unspace_starts starts_nonspace_dropWhile_id by blast
  show ?thesis
  proof (cases r)
    case Nil
    then show ?thesis using sp by (simp add: unspace_space replaceAll_Nil)
  next
    case (Cons q r')
    have q: "\<not> is_space q" using assms Cons by (simp add: starts_nonspace_def)
    have e: "unspace r = q # unspace r'" using q Cons by (simp add: unspace_nonspace)
    show ?thesis
    proof (cases "is_punct q")
      case True
      have "unspace (32 # r) = q # unspace r'"
        unfolding unspace_space [OF sp] d using Cons True by simp
      then show ?thesis using e q by simp
    next
      case False
      have "unspace (32 # r) = 32 # unspace r"
        unfolding unspace_space [OF sp] d using Cons False by simp
      then show ?thesis using u sp by simp
    qed
  qed
qed

lemma unspace_before_word:
  assumes "is_space c" "starts_word w"
  shows "unspace (c # w) = c # unspace w"
proof -
  have d: "dropWhile is_space w = w"
    using assms(2) starts_word_nonspace starts_nonspace_dropWhile_id by blast
  show ?thesis
    unfolding unspace_space [OF assms(1)] d using assms(2)
    by (cases w) (simp_all add: starts_word_def)
qed

lemma respace_starts_word: "starts_word s \<Longrightarrow> starts_word (respace s)"
  by (cases s) (simp_all add: starts_word_def respace_Cons replaceAll_Nil)

lemma respace_unspace_respace: "tidy v \<Longrightarrow> respace (unspace (respace v)) = respace v"
proof (induction v rule: length_induct)
  case (1 v)
  show ?case
  proof (cases v)
    case Nil
    then show ?thesis by (simp add: replaceAll_Nil)
  next
    case (Cons c cs)
    have p: "plain_char c" and s: "is_space c \<longrightarrow> starts_word cs" and r: "tidy cs"
      using 1(2) Cons by (simp_all add: tidy_Cons)
    show ?thesis
    proof (cases "is_punct c")
      case True
      let ?d = "dropWhile is_space cs"
      let ?R = "respace ?d"
      have nsp: "\<not> is_space c" using True by (rule punct_not_space)
      have "length ?d < length v" using Cons length_dropWhile_le [of is_space cs] by simp
      moreover have "tidy ?d" using r by (rule tidy_dropWhile)
      ultimately have ih: "respace (unspace ?R) = ?R" using 1(1) by blast
      have st: "starts_nonspace ?R" by (rule respace_starts) (rule starts_nonspace_dropWhile)
      have "respace (unspace (c # 32 # ?R)) = respace (c # unspace (32 # ?R))"
        using nsp by (simp add: unspace_nonspace)
      also have "\<dots> = c # 32 # respace (dropWhile is_space (unspace (32 # ?R)))"
        using True by (simp add: respace_Cons)
      also have "\<dots> = c # 32 # ?R" using unspace_after_space [OF st] ih by simp
      finally show ?thesis using Cons True by (simp add: respace_Cons)
    next
      case False
      have ih: "respace (unspace (respace cs)) = respace cs" using 1(1) Cons r by simp
      show ?thesis
      proof (cases "is_space c")
        case True
        have "starts_word (respace cs)" using s True respace_starts_word by blast
        then have "unspace (c # respace cs) = c # unspace (respace cs)"
          using True unspace_before_word by blast
        then show ?thesis using Cons False ih by (simp add: respace_Cons)
      next
        case F2: False
        then show ?thesis using Cons False ih by (simp add: respace_Cons unspace_nonspace)
      qed
    qed
  qed
qed

subsection \<open>The last code unit\<close>

lemma unspace_snoc_space: "ends_nonspace y \<Longrightarrow> unspace (y @ [32]) = unspace y @ [32]"
proof (induction y rule: length_induct)
  case (1 y)
  have sp: "is_space 32" by (simp add: is_space_def)
  show ?case
  proof (cases y)
    case Nil
    then show ?thesis using sp by (simp add: unspace_space replaceAll_Nil)
  next
    case (Cons c cs)
    have e: "ends_nonspace cs" using 1(2) Cons by (auto simp: ends_nonspace_def)
    have ih: "unspace (cs @ [32]) = unspace cs @ [32]" using 1(1) Cons e by simp
    show ?thesis
    proof (cases "is_space c")
      case False
      then show ?thesis using Cons ih by (simp add: unspace_nonspace)
    next
      case True
      have ne: "cs \<noteq> []" using 1(2) Cons True by (auto simp: ends_nonspace_def)
      then have l: "\<not> is_space (last cs)" using e by (simp add: ends_nonspace_def)
      have d1: "dropWhile is_space (cs @ [32]) = dropWhile is_space cs @ [32]"
        using ne l by (rule dropWhile_snoc_space)
      obtain q r' where d: "dropWhile is_space cs = q # r'"
        using dropWhile_ends [OF ne l] by (cases "dropWhile is_space cs") auto
      have lq: "last (q # r') = last cs" using dropWhile_ends [OF ne l] d by simp
      show ?thesis
      proof (cases "is_punct q")
        case T2: True
        have "ends_nonspace r'" using lq l by (auto simp: ends_nonspace_def split: if_splits)
        moreover have "length r' < length y"
          using Cons d length_dropWhile_le [of is_space cs] by simp
        ultimately have "unspace (r' @ [32]) = unspace r' @ [32]" using 1(1) by blast
        moreover have "unspace (c # cs @ [32]) = q # unspace (r' @ [32])"
          unfolding unspace_space [OF True] d1 d using T2 by simp
        moreover have "unspace (c # cs) = q # unspace r'"
          unfolding unspace_space [OF True] d using T2 by simp
        ultimately show ?thesis using Cons by simp
      next
        case F2: False
        have "unspace (c # cs @ [32]) = c # unspace (cs @ [32])"
          unfolding unspace_space [OF True] d1 d using F2 by simp
        moreover have "unspace (c # cs) = c # unspace cs"
          unfolding unspace_space [OF True] d using F2 by simp
        ultimately show ?thesis using Cons ih by simp
      qed
    qed
  qed
qed

lemma respace_snoc_space:
  "y \<noteq> [] \<Longrightarrow> is_punct (last y) \<Longrightarrow> respace (y @ [32]) = respace y"
proof (induction y rule: length_induct)
  case (1 y)
  obtain c cs where y: "y = c # cs" using 1(2) by (cases y) auto
  show ?case
  proof (cases "cs = []")
    case True
    then have "is_punct c" using 1(3) y by simp
    then show ?thesis using y True by (simp add: respace_Cons replaceAll_Nil is_space_def)
  next
    case False
    have l: "is_punct (last cs)" using 1(3) y False by simp
    then have nl: "\<not> is_space (last cs)" by (rule punct_not_space)
    show ?thesis
    proof (cases "is_punct c")
      case True
      let ?d = "dropWhile is_space cs"
      have d: "?d \<noteq> []" "last ?d = last cs" using dropWhile_ends [OF False nl] by simp_all
      have "length ?d < length y" using y length_dropWhile_le [of is_space cs] by simp
      then have "respace (?d @ [32]) = respace ?d" using 1(1) d l by simp
      then show ?thesis using y True dropWhile_snoc_space [OF False nl]
        by (simp add: respace_Cons)
    next
      case F2: False
      have "respace (cs @ [32]) = respace cs" using 1(1) y False l by simp
      then show ?thesis using y F2 by (simp add: respace_Cons)
    qed
  qed
qed

lemma respace_ends_punct:
  "v \<noteq> [] \<Longrightarrow> is_punct (last v) \<Longrightarrow> \<exists>y. respace v = y @ [32] \<and> y \<noteq> [] \<and> last y = last v"
proof (induction v rule: length_induct)
  case (1 v)
  obtain c cs where v: "v = c # cs" using 1(2) by (cases v) auto
  show ?case
  proof (cases "cs = []")
    case True
    then have "is_punct c" using 1(3) v by simp
    then have "respace v = [c] @ [32]" using v True by (simp add: respace_Cons replaceAll_Nil)
    then show ?thesis using v True by blast
  next
    case False
    have l: "is_punct (last cs)" using 1(3) v False by simp
    then have nl: "\<not> is_space (last cs)" by (rule punct_not_space)
    show ?thesis
    proof (cases "is_punct c")
      case True
      let ?d = "dropWhile is_space cs"
      have d: "?d \<noteq> []" "last ?d = last cs" using dropWhile_ends [OF False nl] by simp_all
      have "length ?d < length v" using v length_dropWhile_le [of is_space cs] by simp
      then obtain y' where y': "respace ?d = y' @ [32]" "y' \<noteq> []" "last y' = last ?d"
        using 1(1) d l by metis
      have "respace v = (c # 32 # y') @ [32]" using v True y'(1) by (simp add: respace_Cons)
      moreover have "last (c # 32 # y') = last v" using y'(2,3) d(2) v False by simp
      ultimately show ?thesis by blast
    next
      case F2: False
      obtain y' where y': "respace cs = y' @ [32]" "y' \<noteq> []" "last y' = last cs"
        using 1(1) v False l by (metis impossible_Cons linorder_not_le list.size(4) lessI less_Suc_eq_le)
      have "respace v = (c # y') @ [32]" using v F2 y'(1) by (simp add: respace_Cons)
      moreover have "last (c # y') = last v" using y'(2,3) v False by simp
      ultimately show ?thesis by blast
    qed
  qed
qed

lemma respace_ends_other:
  "v \<noteq> [] \<Longrightarrow> \<not> is_space (last v) \<Longrightarrow> \<not> is_punct (last v)
   \<Longrightarrow> respace v \<noteq> [] \<and> last (respace v) = last v"
proof (induction v rule: length_induct)
  case (1 v)
  obtain c cs where v: "v = c # cs" using 1(2) by (cases v) auto
  show ?case
  proof (cases "cs = []")
    case True
    then have "\<not> is_punct c" using 1(4) v by simp
    then show ?thesis using v True by (simp add: respace_Cons replaceAll_Nil)
  next
    case False
    have l: "\<not> is_space (last cs)" "\<not> is_punct (last cs)" using 1(3,4) v False by simp_all
    show ?thesis
    proof (cases "is_punct c")
      case True
      let ?d = "dropWhile is_space cs"
      have d: "?d \<noteq> []" "last ?d = last cs" using dropWhile_ends [OF False l(1)] by simp_all
      have "length ?d < length v" using v length_dropWhile_le [of is_space cs] by simp
      then have "respace ?d \<noteq> [] \<and> last (respace ?d) = last ?d" using 1(1) d l by simp
      then show ?thesis using v True d(2) False by (simp add: respace_Cons)
    next
      case F2: False
      have "respace cs \<noteq> [] \<and> last (respace cs) = last cs" using 1(1) v False l by simp
      then show ?thesis using v F2 False by (simp add: respace_Cons)
    qed
  qed
qed

lemma unspace_ends:
  "y \<noteq> [] \<Longrightarrow> \<not> is_space (last y) \<Longrightarrow> unspace y \<noteq> [] \<and> last (unspace y) = last y"
proof (induction y rule: length_induct)
  case (1 y)
  obtain c cs where y: "y = c # cs" using 1(2) by (cases y) auto
  show ?case
  proof (cases "cs = []")
    case True
    then have "\<not> is_space c" using 1(3) y by simp
    then show ?thesis using y True by (simp add: unspace_nonspace replaceAll_Nil)
  next
    case False
    have l: "\<not> is_space (last cs)" using 1(3) y False by simp
    have ih: "unspace cs \<noteq> [] \<and> last (unspace cs) = last cs" using 1(1) y False l by simp
    show ?thesis
    proof (cases "is_space c")
      case F2: False
      then show ?thesis using y ih False by (simp add: unspace_nonspace)
    next
      case True
      obtain q r' where d: "dropWhile is_space cs = q # r'"
        using dropWhile_ends [OF False l] by (cases "dropWhile is_space cs") auto
      have lq: "last (q # r') = last cs" using dropWhile_ends [OF False l] d by simp
      show ?thesis
      proof (cases "is_punct q")
        case T2: True
        have u: "unspace y = q # unspace r'"
          unfolding y unspace_space [OF True] d using T2 by simp
        show ?thesis
        proof (cases "r' = []")
          case T3: True
          then show ?thesis using u lq y False by (simp add: replaceAll_Nil)
        next
          case F3: False
          have "length r' < length y" using y d length_dropWhile_le [of is_space cs] by simp
          moreover have "\<not> is_space (last r')" using lq l F3 by simp
          ultimately have "unspace r' \<noteq> [] \<and> last (unspace r') = last r'"
            using 1(1) F3 by blast
          then show ?thesis using u lq y False F3 by simp
        qed
      next
        case F2: False
        have "unspace y = c # unspace cs"
          unfolding y unspace_space [OF True] d using F2 by simp
        then show ?thesis using ih y False by simp
      qed
    qed
  qed
qed

lemma collapse_ends:
  "x \<noteq> [] \<Longrightarrow> \<not> is_space (last x) \<Longrightarrow> collapse x \<noteq> [] \<and> last (collapse x) = last x"
proof (induction x rule: length_induct)
  case (1 x)
  obtain c cs where x: "x = c # cs" using 1(2) by (cases x) auto
  show ?case
  proof (cases "cs = []")
    case True
    then have "\<not> is_space c" using 1(3) x by simp
    then show ?thesis using x True by (simp add: collapse_Cons replaceAll_Nil)
  next
    case False
    have l: "\<not> is_space (last cs)" using 1(3) x False by simp
    show ?thesis
    proof (cases "is_space c")
      case True
      let ?d = "dropWhile is_space cs"
      have d: "?d \<noteq> []" "last ?d = last cs" using dropWhile_ends [OF False l] by simp_all
      have "length ?d < length x" using x length_dropWhile_le [of is_space cs] by simp
      then have "collapse ?d \<noteq> [] \<and> last (collapse ?d) = last ?d" using 1(1) d l by simp
      then show ?thesis using x True d(2) False by (simp add: collapse_Cons)
    next
      case F2: False
      have "collapse cs \<noteq> [] \<and> last (collapse cs) = last cs" using 1(1) x False l by simp
      then show ?thesis using x F2 False by (simp add: collapse_Cons)
    qed
  qed
qed

subsection \<open>The first code unit\<close>

lemma starts_firm_nonspace: "starts_firm s \<Longrightarrow> starts_nonspace s"
  by (cases s) (simp_all add: starts_firm_def starts_nonspace_def)

lemma to_upper_upper: "is_lower c \<Longrightarrow> is_upper (to_upper c)"
  by (simp add: is_lower_def is_upper_def to_upper_def) arith

lemma upper_not_lower: "is_upper c \<Longrightarrow> \<not> is_lower c"
  by (simp add: is_lower_def is_upper_def)

lemma upper_not_space: "is_upper c \<Longrightarrow> \<not> is_space c"
  by (rule alpha_not_space) (simp add: is_alpha_def)

lemma capitalize_Cons:
  "capitalize (c # cs) = (if is_lower c then to_upper c # cs else c # cs)"
  by (simp add: capitalize_def)

lemma capitalize_firm:
  assumes "starts_nonspace s"
  shows "starts_firm (capitalize s)"
proof (cases s)
  case Nil
  then show ?thesis by (simp add: capitalize_def starts_firm_def)
next
  case (Cons c cs)
  show ?thesis
  proof (cases "is_lower c")
    case True
    have "is_upper (to_upper c)" using True by (rule to_upper_upper)
    then show ?thesis using Cons True upper_not_lower upper_not_space
      by (simp add: capitalize_Cons starts_firm_def)
  next
    case False
    then show ?thesis using Cons assms
      by (simp add: capitalize_Cons starts_firm_def starts_nonspace_def)
  qed
qed

lemma capitalize_same: "starts_firm s \<Longrightarrow> capitalize s = s"
  by (cases s) (simp_all add: starts_firm_def capitalize_def)

lemma capitalize_ends:
  assumes "s \<noteq> []" "\<not> is_space (last s)"
  shows "capitalize s \<noteq> [] \<and> \<not> is_space (last (capitalize s))"
proof -
  obtain c cs where s: "s = c # cs" using assms(1) by (cases s) auto
  show ?thesis
  proof (cases "cs = []")
    case True
    show ?thesis
    proof (cases "is_lower c")
      case T2: True
      have "\<not> is_space (to_upper c)" using T2 to_upper_upper upper_not_space by blast
      then show ?thesis using s True T2 by (simp add: capitalize_Cons)
    next
      case False
      then show ?thesis using s True assms(2) by (simp add: capitalize_Cons)
    qed
  next
    case False
    then show ?thesis using s assms(2) by (simp add: capitalize_Cons)
  qed
qed

lemma collapse_firm: "starts_firm s \<Longrightarrow> starts_firm (collapse s)"
  by (cases s) (simp_all add: starts_firm_def collapse_Cons replaceAll_Nil)

lemma unspace_firm: "starts_firm s \<Longrightarrow> starts_firm (unspace s)"
  by (cases s) (simp_all add: starts_firm_def unspace_nonspace replaceAll_Nil)

lemma respace_firm: "starts_firm s \<Longrightarrow> starts_firm (respace s)"
  by (cases s) (simp_all add: starts_firm_def respace_Cons replaceAll_Nil)

lemma starts_firm_prefix: "starts_firm (y @ z) \<Longrightarrow> y \<noteq> [] \<Longrightarrow> starts_firm y"
  by (cases y) (simp_all add: starts_firm_def)

lemma single_spaced_prefix: "single_spaced (y @ z) \<Longrightarrow> single_spaced y"
proof (induction y)
  case Nil
  then show ?case by simp
next
  case (Cons c cs)
  have "starts_nonspace (cs @ z) \<Longrightarrow> starts_nonspace cs"
    by (cases cs) (simp_all add: starts_nonspace_def)
  then show ?case using Cons by (auto simp: single_spaced_Cons)
qed

subsection \<open>A cleaned sentence is a fixed point\<close>

lemma cleanSentence_fixed:
  assumes t: "starts_nonspace t" "ends_nonspace t"
  shows "cleanSentence (cleanSentence t) = cleanSentence t"
proof -
  let ?a = "capitalize t"
  let ?b = "collapse ?a"
  let ?v = "unspace ?b"
  let ?w = "respace ?v"
  have cs: "cleanSentence t = trim ?w" by (simp add: cleanSentence_short)
  have firm_w: "starts_firm ?w"
    by (intro respace_firm unspace_firm collapse_firm capitalize_firm t(1))
  have single_b: "single_spaced ?b" by (rule collapse_single)
  have tidy_v: "tidy ?v" using single_b by (rule unspace_tidy)
  have single_w: "single_spaced ?w" using tidy_v by (rule respace_single)
  have core: "respace (unspace ?w) = ?w" using tidy_v by (rule respace_unspace_respace)
  show ?thesis
  proof (cases "t = []")
    case True
    then show ?thesis
      by (simp add: cleanSentence_short capitalize_def replaceAll_Nil trim_def)
  next
    case False
    then have lt: "\<not> is_space (last t)" using t(2) by (simp add: ends_nonspace_def)
    have a: "?a \<noteq> []" "\<not> is_space (last ?a)" using capitalize_ends [OF False lt] by simp_all
    have b: "?b \<noteq> []" "\<not> is_space (last ?b)" using collapse_ends [OF a] a(2) by simp_all
    have v: "?v \<noteq> []" "\<not> is_space (last ?v)" using unspace_ends [OF b] b(2) by simp_all
    show ?thesis
    proof (cases "is_punct (last ?v)")
      case True
      obtain y where y: "?w = y @ [32]" "y \<noteq> []" "last y = last ?v"
        using respace_ends_punct [OF v(1) True] by blast
      have ly: "is_punct (last y)" using True y(3) by simp
      then have nly: "\<not> is_space (last y)" by (rule punct_not_space)
      have firm_y: "starts_firm y" using firm_w y(2) unfolding y(1) by (rule starts_firm_prefix)
      have "trim ?w = y"
        unfolding y(1) using starts_firm_nonspace [OF firm_y] y(2) nly by (rule trim_snoc_space)
      then have first: "cleanSentence t = y" using cs by simp
      have single_y: "single_spaced y" using single_w unfolding y(1) by (rule single_spaced_prefix)
      have ends_y: "ends_nonspace y" using nly by (simp add: ends_nonspace_def)
      have u: "unspace y \<noteq> []" "last (unspace y) = last y"
        using unspace_ends [OF y(2) nly] by simp_all
      have "respace (unspace y) = respace (unspace y @ [32])"
        using respace_snoc_space [of "unspace y"] u ly by simp
      also have "\<dots> = respace (unspace (y @ [32]))"
        using unspace_snoc_space [OF ends_y] by simp
      also have "\<dots> = y @ [32]" using core y(1) by simp
      finally have "respace (unspace y) = y @ [32]" .
      moreover have "capitalize y = y" using firm_y by (rule capitalize_same)
      moreover have "collapse y = y" using single_y by (rule single_collapse_same)
      ultimately have "cleanSentence y = trim (y @ [32])" by (simp add: cleanSentence_short)
      also have "\<dots> = y"
        using starts_firm_nonspace [OF firm_y] y(2) nly by (rule trim_snoc_space)
      finally show ?thesis using first by simp
    next
      case False
      have w: "?w \<noteq> []" "last ?w = last ?v"
        using respace_ends_other [OF v False] by simp_all
      have "ends_nonspace ?w" using w v(2) by (simp add: ends_nonspace_def)
      then have tw: "trim ?w = ?w" using starts_firm_nonspace [OF firm_w] by (rule trim_same [rotated])
      then have first: "cleanSentence t = ?w" using cs by simp
      have "capitalize ?w = ?w" using firm_w by (rule capitalize_same)
      moreover have "collapse ?w = ?w" using single_w by (rule single_collapse_same)
      ultimately have "cleanSentence ?w = trim ?w" using core by (simp add: cleanSentence_short)
      then show ?thesis using first tw by simp
    qed
  qed
qed

lemma trim_starts_ends: "starts_nonspace (trim s) \<and> ends_nonspace (trim s)"
  using trim_ends [of s] by (cases "trim s") (auto simp: starts_nonspace_def ends_nonspace_def)

lemma cleanSentence_trim_fixed: "cleanSentence (cleanSentence (trim s)) = cleanSentence (trim s)"
proof -
  have "starts_nonspace (trim s)" "ends_nonspace (trim s)" using trim_starts_ends [of s] by simp_all
  then show ?thesis by (rule cleanSentence_fixed)
qed

lemma processedSentences_fixed:
  assumes "u \<in> set (processedSentences cleaned)"
  shows "cleanSentence u = u"
proof -
  obtain p where "u = cleanSentence (trim p)"
    using assms by (auto simp: processedSentences_def)
  then show ?thesis by (simp add: cleanSentence_trim_fixed)
qed

text \<open>
  Claim C7, as amended: applying \<^verbatim>\<open>cleanTextLocally\<close> to its own output can change it
  (the second pass splits again at the spaces the first pass put after the punctuation
  marks, and can drop or re-capitalise the pieces); what holds for every input is that
  the spacing and casing clean-up of a sentence is idempotent: cleaning a trimmed string
  twice gives what cleaning it once gives, so every cleaned sentence the pass produces is
  left as it is when the clean-up is applied to it again.
\<close>

theorem sentence_cleanup_idempotent:
  "cleanSentence (cleanSentence (trim s)) = cleanSentence (trim s)
   \<and> (\<forall>u\<in>set (processedSentences cleaned). cleanSentence u = u)"
  using cleanSentence_trim_fixed processedSentences_fixed by blast

theorem sentence_cleanup_idempotent_witness:
  "processedSentences pi_text = [js ''3. 14 is the value of pi.'']
   \<and> cleanSentence (js ''3. 14 is the value of pi.'') = js ''3. 14 is the value of pi.''"
  using sentence_cleanup_idempotent [of pi_text pi_text] by (simp add: pi_sentences)

section \<open>The displayed text\<close>

lemma array_sort_Nil: "array_sort cmp [] = []"
  by (simp add: array_sort_def)

lemma combinedText_Nil: "combinedText [] = []"
  by (simp add: combinedText_def replaceAll_def trim_def)

lemma filterAndFormatBlocks_degenerate:
  assumes "wordFilter bs = []"
  shows "filterAndFormatBlocks bs st = ([], st)"
  using assms
  by (simp add: filterAndFormatBlocks_def processedBlocks_def spatialSort_def array_sort_Nil
      combinedText_Nil)

lemma analyzeFrame_degenerate:
  assumes "wordFilter (collectBlocks lines) = []"
  shows "cleanedText (analyzeFrame mounted (Recognized dtext lines) st) = cleanedText st"
  by (simp add: analyzeFrame_def Let_def filterAndFormatBlocks_degenerate [OF assms])

text \<open>
  Claim C8, as amended: on a degenerate input (no word, or a word list whose every word
  the word filter removes) a run produces no document and leaves the displayed string as
  it was: \<^verbatim>\<open>setCleanedText\<close> is called only when the combined text is not empty, and
  an empty word list does not reach \<^verbatim>\<open>filterAndFormatBlocks\<close>. The displayed string is
  replaced by the runs whose combined text is not empty.
\<close>

theorem degenerate_run_keeps_display:
  "(wordFilter (collectBlocks lines) = [] \<longrightarrow>
      cleanedText (analyzeFrame mounted (Recognized dtext lines) st) = cleanedText st
      \<and> displayed (analyzeFrame mounted (Recognized dtext lines) st) = displayed st)
   \<and> (wordFilter bs = [] \<longrightarrow> filterAndFormatBlocks bs st = ([], st))
   \<and> (combinedText (processedBlocks bs) \<noteq> [] \<longrightarrow>
      cleanedText (snd (filterAndFormatBlocks bs st))
        = cleanTextLocally (combinedText (processedBlocks bs)))"
proof (intro conjI impI)
  assume h: "wordFilter (collectBlocks lines) = []"
  have "cleanedText (analyzeFrame mounted (Recognized dtext lines) st) = cleanedText st"
    using h by (rule analyzeFrame_degenerate)
  then show "cleanedText (analyzeFrame mounted (Recognized dtext lines) st) = cleanedText st"
    and "displayed (analyzeFrame mounted (Recognized dtext lines) st) = displayed st"
    by (simp_all add: displayed_def)
next
  assume "wordFilter bs = []"
  then show "filterAndFormatBlocks bs st = ([], st)" by (rule filterAndFormatBlocks_degenerate)
next
  assume "combinedText (processedBlocks bs) \<noteq> []"
  then show "cleanedText (snd (filterAndFormatBlocks bs st))
        = cleanTextLocally (combinedText (processedBlocks bs))"
    by (simp add: filterAndFormatBlocks_def Let_def)
qed

lemma news_filtered: "wordFilter (collectBlocks [[news_word]]) = []"
  by (simp add: wordFilter_def collectBlocks_def news_word_def keep_block_def js_def trim_def
      short_caps_def char_defs)

theorem degenerate_run_keeps_display_witness:
  "wordFilter (collectBlocks [[news_word]]) = []
   \<and> cleanedText (analyzeFrame True (Recognized (js ''NEWS'') [[news_word]]) old_state)
       = js ''The quick fox.''
   \<and> cleanedText (analyzeFrame True (Recognized (js ''NEWS'') []) old_state)
       = js ''The quick fox.''"
proof -
  have e: "wordFilter (collectBlocks []) = []" by (simp add: wordFilter_def collectBlocks_def)
  show ?thesis
    using news_filtered e
      degenerate_run_keeps_display [of "[[news_word]]" True "js ''NEWS''" old_state "[]"]
      degenerate_run_keeps_display [of "[]" True "js ''NEWS''" old_state "[]"]
    by (simp add: old_state_def)
qed

text \<open>
  Claim C8 as stated fails: after a run on a word list whose only word is filtered out,
  and after a run on an empty word list, the page still shows the text of the run before.
\<close>

theorem degenerate_run_counterexample:
  "cleanedText (analyzeFrame True (Recognized (js ''NEWS'') [[news_word]]) old_state) \<noteq> []
   \<and> displayed (analyzeFrame True (Recognized (js ''NEWS'') [[news_word]]) old_state)
       = Shown (js ''The quick fox.'')
   \<and> displayed (analyzeFrame True (Recognized (js ''NEWS'') []) old_state)
       = Shown (js ''The quick fox.'')"
proof -
  have e: "wordFilter (collectBlocks []) = []" by (simp add: wordFilter_def collectBlocks_def)
  have 1: "cleanedText (analyzeFrame True (Recognized (js ''NEWS'') [[news_word]]) old_state)
      = js ''The quick fox.''"
    unfolding analyzeFrame_degenerate [OF news_filtered] by (simp add: old_state_def)
  have 2: "cleanedText (analyzeFrame True (Recognized (js ''NEWS'') []) old_state)
      = js ''The quick fox.''"
    unfolding analyzeFrame_degenerate [OF e] by (simp add: old_state_def)
  show ?thesis unfolding displayed_def 1 2 by (simp add: js_def)
qed

section \<open>The remote clean-up\<close>

text \<open>
  Claim C9: for every input text, if the remote call throws or its response carries no
  generated text, \<^verbatim>\<open>cleanTextWithAI\<close> returns the input text unchanged; in every
  case it returns a string and no error, and it leaves the loading flag off.
\<close>

theorem ai_cleanup_fails_open:
  "(no_generated_text g \<longrightarrow> fst (cleanTextWithAI g text st) = Inr text)
   \<and> (\<exists>s. fst (cleanTextWithAI g text st) = Inr s)
   \<and> \<not> isLoading (snd (cleanTextWithAI g text st))"
  by (auto simp: cleanTextWithAI_def ai_try_def no_generated_text_def Let_def
      split: generation.splits option.splits)

theorem ai_cleanup_fails_open_witness:
  "no_generated_text (Rejected (js ''timeout''))
   \<and> fst (cleanTextWithAI (Rejected (js ''timeout'')) scenario_text old_state) = Inr scenario_text
   \<and> fst (cleanTextWithAI (Resolved (Some None)) scenario_text old_state) = Inr scenario_text"
proof -
  have 1: "no_generated_text (Rejected (js ''timeout''))" by (simp add: no_generated_text_def)
  have 2: "no_generated_text (Resolved (Some None))" by (simp add: no_generated_text_def)
  show ?thesis
    using 1 2 ai_cleanup_fails_open [of "Rejected (js ''timeout'')" scenario_text old_state]
      ai_cleanup_fails_open [of "Resolved (Some None)" scenario_text old_state]
    by blast
qed

end
